theory Spec2Isabelle
  imports Complex_Main "HOL-Library.Option_ord"
begin

section \<open>The balancer engine of \<open>app.py\<close> (class \<open>NERBalancer\<close>)\<close>

subsection \<open>Data\<close>

text \<open>
  A sentence is a list of (word, tag) pairs. A per-sentence tag count is the
  \<open>defaultdict(int)\<close> built by \<open>get_sentence_tag_counts\<close>; the code only ever walks
  it with \<open>.items()\<close>, so it is an association list in insertion order. The target
  frequencies are a \<open>Dict[str, int]\<close>, walked with \<open>.items()\<close> and read with \<open>in\<close>
  and \<open>[tag]\<close>: an association list read through \<open>map_of\<close>. The running aggregate
  \<open>current_counts\<close> is a \<open>defaultdict(int)\<close> that is only read by key: a map, where a
  missing key reads as 0.
\<close>

type_synonym sentence = "(string \<times> string) list"
type_synonym tag_counts = "(string \<times> int) list"
type_synonym targets = "(string \<times> int) list"
type_synonym counts = "string \<rightharpoonup> int"

text \<open>Reading a \<open>defaultdict(int)\<close> by key, and \<open>dict.get(tag, 0)\<close>.\<close>

definition dd_get :: "counts \<Rightarrow> string \<Rightarrow> int" where
  "dd_get cc tag = (case cc tag of None \<Rightarrow> 0 | Some v \<Rightarrow> v)"

text \<open>The count a per-sentence dictionary holds for a tag (0 when the tag is absent).\<close>

definition count_of :: "tag_counts \<Rightarrow> string \<Rightarrow> int" where
  "count_of sc tag = (case map_of sc tag of None \<Rightarrow> 0 | Some v \<Rightarrow> v)"

subsection \<open>\<open>get_sentence_tag_counts\<close>\<close>

text \<open>\<open>counts[tag] += 1\<close> on a \<open>defaultdict(int)\<close>: a present key keeps its place, a new
  key is appended with value \<open>0 + 1\<close>.\<close>

fun incr_tag :: "string \<Rightarrow> tag_counts \<Rightarrow> tag_counts" where
  "incr_tag tag [] = [(tag, 0 + 1)]"
| "incr_tag tag ((t, c) # rest) =
     (if t = tag then (t, c + 1) # rest else (t, c) # incr_tag tag rest)"

definition get_sentence_tag_counts :: "sentence \<Rightarrow> tag_counts" where
  "get_sentence_tag_counts sent =
     fold (\<lambda>(_, tag) counts. if tag \<noteq> ''O'' then incr_tag tag counts else counts) sent []"

subsection \<open>\<open>should_remove_sentence\<close>\<close>

text \<open>
  The loop over \<open>sentence_counts.items()\<close> with its two early \<open>return False\<close>. The
  source compares the integer \<open>current - count\<close> with the float \<open>target * 0.8\<close>; the
  product is taken here in exact real arithmetic.
\<close>

fun should_remove_sentence :: "targets \<Rightarrow> nat \<Rightarrow> tag_counts \<Rightarrow> counts \<Rightarrow> bool" where
  "should_remove_sentence tf idx [] cc = True"
| "should_remove_sentence tf idx ((tag, count) # rest) cc =
     (case map_of tf tag of
        None \<Rightarrow> should_remove_sentence tf idx rest cc
      | Some target \<Rightarrow>
          (let current = dd_get cc tag in
           if current < target then False
           else if real_of_int (current - count) < real_of_int target * 0.8 then False
           else should_remove_sentence tf idx rest cc))"

subsection \<open>Iterating over a Python set\<close>

text \<open>
  \<open>selected\<close> and \<open>available\<close> are Python sets of sentence indices, and the code walks
  them with \<open>for idx in selected\<close>, \<open>list(selected)\<close> and \<open>list(available)\<close>. The source
  does not sort them: the order is the one the interpreter's set yields. The model
  leaves the order open. Every place where a set is walked has a name (a \<open>site\<close>), and
  an \<open>order\<close> gives for each site a rearrangement of the ascending list of the set's
  members; \<open>py_list\<close> accepts the rearrangement when it is a permutation and falls back
  to the ascending list otherwise, so \<open>py_list\<close> always enumerates the set exactly once.
\<close>

datatype site = Counts | Removal nat | Addition nat

type_synonym order = "site \<Rightarrow> nat list \<Rightarrow> nat list"

definition py_list :: "(nat list \<Rightarrow> nat list) \<Rightarrow> nat set \<Rightarrow> nat list" where
  "py_list perm S =
     (let xs = sorted_list_of_set S; ys = perm xs in if sort ys = xs then ys else xs)"

definition ascending :: order where
  "ascending = (\<lambda>_ xs. xs)"

subsection \<open>\<open>get_current_counts\<close> and \<open>calculate_frequency_score\<close>\<close>

text \<open>\<open>for tag, count in sentence_counts.items(): counts[tag] += count\<close>, and the same
  with \<open>-=\<close>.\<close>

definition add_counts :: "tag_counts \<Rightarrow> counts \<Rightarrow> counts" where
  "add_counts sc cc = fold (\<lambda>(tag, count) cc. cc(tag \<mapsto> dd_get cc tag + count)) sc cc"

definition sub_counts :: "tag_counts \<Rightarrow> counts \<Rightarrow> counts" where
  "sub_counts sc cc = fold (\<lambda>(tag, count) cc. cc(tag \<mapsto> dd_get cc tag - count)) sc cc"

definition get_current_counts ::
  "(nat list \<Rightarrow> nat list) \<Rightarrow> sentence list \<Rightarrow> nat set \<Rightarrow> tag_counts list \<Rightarrow> counts" where
  "get_current_counts perm sentences sel sentence_tag_counts =
     fold (\<lambda>idx counts. add_counts (sentence_tag_counts ! idx) counts)
       (py_list perm sel) Map.empty"

definition calculate_frequency_score :: "targets \<Rightarrow> counts \<Rightarrow> int" where
  "calculate_frequency_score tf cc =
     fold (\<lambda>(tag, target) score. score - \<bar>dd_get cc tag - target\<bar>) tf 0"

subsection \<open>\<open>balance_dataset\<close>\<close>

text \<open>The inner loop of the addition pass (\<open>can_add\<close> with its \<open>break\<close>); \<open>target * 1.1\<close>
  is taken in exact real arithmetic.\<close>

fun can_add :: "targets \<Rightarrow> tag_counts \<Rightarrow> counts \<Rightarrow> bool" where
  "can_add tf [] cc = True"
| "can_add tf ((tag, count) # rest) cc =
     (case map_of tf tag of
        None \<Rightarrow> can_add tf rest cc
      | Some target \<Rightarrow>
          (if real_of_int (dd_get cc tag + count) > real_of_int target * 1.1 then False
           else can_add tf rest cc))"

text \<open>The state of the loop: \<open>best_score\<close> is \<open>None\<close> for \<open>float('-inf')\<close>, which is
  below every score in the order on \<open>int option\<close>.\<close>

record balance_state =
  selected :: "nat set"
  current_counts :: counts
  best_selected :: "nat set"
  best_score :: "int option"

text \<open>The bodies of the two inner \<open>for idx in ...\<close> loops, on the triple
  (\<open>selected\<close>, \<open>current_counts\<close>, \<open>improved\<close>).\<close>

definition remove_step ::
  "targets \<Rightarrow> tag_counts list \<Rightarrow> nat \<Rightarrow> nat set \<times> counts \<times> bool \<Rightarrow> nat set \<times> counts \<times> bool" where
  "remove_step tf sentence_tag_counts idx = (\<lambda>(sel, cc, improved).
     (let sentence_counts = sentence_tag_counts ! idx in
      if should_remove_sentence tf idx sentence_counts cc
      then (sel - {idx}, sub_counts sentence_counts cc, True)
      else (sel, cc, improved)))"

definition add_step ::
  "targets \<Rightarrow> tag_counts list \<Rightarrow> nat \<Rightarrow> nat set \<times> counts \<times> bool \<Rightarrow> nat set \<times> counts \<times> bool" where
  "add_step tf sentence_tag_counts idx = (\<lambda>(sel, cc, improved).
     (let sentence_counts = sentence_tag_counts ! idx in
      if can_add tf sentence_counts cc
      then (insert idx sel, add_counts sentence_counts cc, True)
      else (sel, cc, improved)))"

definition removal_pass ::
  "targets \<Rightarrow> tag_counts list \<Rightarrow> order \<Rightarrow> nat \<Rightarrow> nat set \<times> counts \<times> bool \<Rightarrow> nat set \<times> counts \<times> bool" where
  "removal_pass tf sentence_tag_counts ord i = (\<lambda>(sel, cc, improved).
     fold (remove_step tf sentence_tag_counts) (py_list (ord (Removal i)) sel)
       (sel, cc, improved))"

definition addition_pass ::
  "targets \<Rightarrow> tag_counts list \<Rightarrow> nat \<Rightarrow> order \<Rightarrow> nat \<Rightarrow> nat set \<times> counts \<times> bool \<Rightarrow> nat set \<times> counts \<times> bool" where
  "addition_pass tf sentence_tag_counts n ord i = (\<lambda>(sel, cc, improved).
     (let available = {0..<n} - sel in
      fold (add_step tf sentence_tag_counts) (py_list (ord (Addition i)) available)
        (sel, cc, improved)))"

text \<open>One run of the body of \<open>for iteration in range(self.max_iterations)\<close>, up to the
  test of \<open>improved\<close>; the flag is returned beside the new state.\<close>

definition iteration ::
  "targets \<Rightarrow> tag_counts list \<Rightarrow> nat \<Rightarrow> order \<Rightarrow> nat \<Rightarrow> balance_state \<Rightarrow> balance_state \<times> bool" where
  "iteration tf sentence_tag_counts n ord i st =
     (let (sel, cc, improved) =
            addition_pass tf sentence_tag_counts n ord i
              (removal_pass tf sentence_tag_counts ord i
                 (selected st, current_counts st, False));
          score = calculate_frequency_score tf cc;
          st' = st\<lparr>selected := sel, current_counts := cc\<rparr>
      in (if best_score st < Some score
          then st'\<lparr>best_score := Some score, best_selected := sel\<rparr>
          else st',
          improved))"

text \<open>The outer loop: \<open>i\<close> is the loop variable \<open>iteration\<close>, the second number counts the
  rounds that \<open>range(self.max_iterations)\<close> still holds. \<open>balance_loop\<close> is the state
  when the loop is left; \<open>balance_trace\<close> lists the state at the end of each round that
  was run.\<close>

fun balance_loop ::
  "targets \<Rightarrow> tag_counts list \<Rightarrow> nat \<Rightarrow> order \<Rightarrow> nat \<Rightarrow> nat \<Rightarrow> balance_state \<Rightarrow> balance_state" where
  "balance_loop tf stc n ord i 0 st = st"
| "balance_loop tf stc n ord i (Suc k) st =
     (case iteration tf stc n ord i st of
        (st', improved) \<Rightarrow>
          if \<not> improved then st' else balance_loop tf stc n ord (Suc i) k st')"

fun balance_trace ::
  "targets \<Rightarrow> tag_counts list \<Rightarrow> nat \<Rightarrow> order \<Rightarrow> nat \<Rightarrow> nat \<Rightarrow> balance_state \<Rightarrow> balance_state list" where
  "balance_trace tf stc n ord i 0 st = []"
| "balance_trace tf stc n ord i (Suc k) st =
     (case iteration tf stc n ord i st of
        (st', improved) \<Rightarrow>
          st' # (if \<not> improved then [] else balance_trace tf stc n ord (Suc i) k st'))"

definition initial_state :: "order \<Rightarrow> sentence list \<Rightarrow> balance_state" where
  "initial_state ord sentences =
     (let sentence_tag_counts = map get_sentence_tag_counts sentences;
          sel = {0..<length sentences}
      in \<lparr>selected = sel,
          current_counts = get_current_counts (ord Counts) sentences sel sentence_tag_counts,
          best_selected = {},
          best_score = None\<rparr>)"

definition final_state :: "targets \<Rightarrow> nat \<Rightarrow> order \<Rightarrow> sentence list \<Rightarrow> balance_state" where
  "final_state tf max_iterations ord sentences =
     balance_loop tf (map get_sentence_tag_counts sentences) (length sentences) ord
       0 max_iterations (initial_state ord sentences)"

definition balance_dataset :: "targets \<Rightarrow> nat \<Rightarrow> order \<Rightarrow> sentence list \<Rightarrow> sentence list" where
  "balance_dataset tf max_iterations ord sentences =
     map (\<lambda>idx. sentences ! idx)
       (sorted_list_of_set (best_selected (final_state tf max_iterations ord sentences)))"

section \<open>The corpus model (\<open>read_conll\<close>, \<open>write_conll\<close>)\<close>

text \<open>
  A file is the text it holds: a \<open>string\<close>, each \<open>char\<close> standing for the code point of
  the same number (code points above 255 are outside this alphabet). Opening and decoding
  the file are left out; \<open>read_conll\<close> takes the text and \<open>write_conll\<close> returns the text
  it writes.
\<close>

abbreviation LF :: char where "LF \<equiv> CHR 0x0A"
abbreviation CR :: char where "CR \<equiv> CHR 0x0D"

text \<open>The characters that \<open>str.strip()\<close> and \<open>str.split()\<close> treat as whitespace
  (\<open>str.isspace\<close>), among the code points below 256: U+0009 to U+000D, U+001C to U+0020,
  U+0085 and U+00A0.\<close>

definition is_space :: "char \<Rightarrow> bool" where
  "is_space c =
     (let n = (of_char c :: nat)
      in (9 \<le> n \<and> n \<le> 13) \<or> (28 \<le> n \<and> n \<le> 32) \<or> n = 133 \<or> n = 160)"

definition strip :: "string \<Rightarrow> string" where
  "strip s = rev (dropWhile is_space (rev (dropWhile is_space s)))"

text \<open>\<open>str.split()\<close> with no argument: the maximal runs of characters that are not
  whitespace. \<open>word\<close> is the run read so far.\<close>

fun split_from :: "string \<Rightarrow> string \<Rightarrow> string list" where
  "split_from word [] = (if word = [] then [] else [word])"
| "split_from word (c # cs) =
     (if is_space c
      then (if word = [] then split_from [] cs else word # split_from [] cs)
      else split_from (word @ [c]) cs)"

definition split :: "string \<Rightarrow> string list" where
  "split s = split_from [] s"

definition startswith :: "string \<Rightarrow> string \<Rightarrow> bool" where
  "startswith s p = (take (length p) s = p)"

text \<open>The file is opened in text mode with the default \<open>newline=None\<close>: on reading,
  \<open>\r\n\<close> and a lone \<open>\r\<close> become \<open>\n\<close>, and \<open>for line in f\<close> yields the text cut after
  each \<open>\n\<close> (the last piece, when not empty, has none).\<close>

fun universal_newlines :: "string \<Rightarrow> string" where
  "universal_newlines (c # d # cs) =
     (if c = CR \<and> d = LF then LF # universal_newlines cs
      else if c = CR then LF # universal_newlines (d # cs)
      else c # universal_newlines (d # cs))"
| "universal_newlines [c] = (if c = CR then [LF] else [c])"
| "universal_newlines [] = []"

fun lines_from :: "string \<Rightarrow> string \<Rightarrow> string list" where
  "lines_from line [] = (if line = [] then [] else [line])"
| "lines_from line (c # cs) =
     (if c = LF then (line @ [c]) # lines_from [] cs else lines_from (line @ [c]) cs)"

definition file_lines :: "string \<Rightarrow> string list" where
  "file_lines text = lines_from [] (universal_newlines text)"

datatype error = IndexError

text \<open>The body of \<open>for line in f\<close>, on the pair (\<open>sentences\<close>, \<open>current_sentence\<close>).
  \<open>parts[0]\<close> raises IndexError on an empty list.\<close>

definition read_line ::
  "string \<Rightarrow> sentence list \<times> sentence \<Rightarrow> error + sentence list \<times> sentence" where
  "read_line raw = (\<lambda>(sentences, current_sentence).
     (let line = strip raw in
      if startswith line ''-DOCSTART-'' \<or> line = []
      then (if current_sentence \<noteq> []
            then Inr (sentences @ [current_sentence], [])
            else Inr (sentences, current_sentence))
      else (case split line of
              [] \<Rightarrow> Inl IndexError
            | word # rest \<Rightarrow>
                (let tag = last (word # rest)
                 in Inr (sentences, current_sentence @ [(word, tag)])))))"

fun read_lines ::
  "string list \<Rightarrow> sentence list \<times> sentence \<Rightarrow> error + sentence list \<times> sentence" where
  "read_lines [] st = Inr st"
| "read_lines (l # ls) st =
     (case read_line l st of Inl e \<Rightarrow> Inl e | Inr st' \<Rightarrow> read_lines ls st')"

definition read_conll :: "string \<Rightarrow> error + sentence list" where
  "read_conll text =
     (case read_lines (file_lines text) ([], []) of
        Inl e \<Rightarrow> Inl e
      | Inr (sentences, current_sentence) \<Rightarrow>
          Inr (if current_sentence \<noteq> [] then sentences @ [current_sentence]
               else sentences))"

text \<open>The text that \<open>write_conll\<close> writes (with \<open>\n\<close> as the line separator of the
  platform).\<close>

definition write_sentence :: "sentence \<Rightarrow> string" where
  "write_sentence sentence =
     concat (map (\<lambda>(word, tag). word @ '' -X- _ '' @ tag @ [LF]) sentence) @ [LF]"

definition write_conll :: "sentence list \<Rightarrow> string" where
  "write_conll sentences =
     ''-DOCSTART- -X- O O'' @ [LF, LF] @ concat (map write_sentence sentences)"

section \<open>Invariants of the balancing loop\<close>

text \<open>\<open>counts_ok\<close>: the aggregate holds, for every label, the sum of the label's counts
  over the selected sentences. \<open>state_ok\<close> adds that the selection holds indices of the
  corpus only.\<close>

definition counts_ok :: "tag_counts list \<Rightarrow> nat set \<Rightarrow> counts \<Rightarrow> bool" where
  "counts_ok stc sel cc = (\<forall>tag. dd_get cc tag = (\<Sum>idx\<in>sel. count_of (stc ! idx) tag))"

definition state_ok :: "tag_counts list \<Rightarrow> nat \<Rightarrow> balance_state \<Rightarrow> bool" where
  "state_ok stc n st =
     (selected st \<subseteq> {0..<n} \<and> counts_ok stc (selected st) (current_counts st))"

text \<open>The states at the iteration boundaries of a run of \<open>balance_dataset\<close>: the state
  before the loop, then the state at the end of each round that was run.\<close>

definition balance_states :: "targets \<Rightarrow> nat \<Rightarrow> order \<Rightarrow> sentence list \<Rightarrow> balance_state list" where
  "balance_states tf max_iterations ord sentences =
     initial_state ord sentences #
     balance_trace tf (map get_sentence_tag_counts sentences) (length sentences) ord
       0 max_iterations (initial_state ord sentences)"

text \<open>\<open>recorded tf S st\<close>: the best selection and the best score of \<open>st\<close> were recorded
  at one of the states in \<open>S\<close>, as its selection and the score of its aggregate.\<close>

definition recorded :: "targets \<Rightarrow> balance_state set \<Rightarrow> balance_state \<Rightarrow> bool" where
  "recorded tf S st =
     (\<exists>s\<in>S. best_selected st = selected s \<and>
             best_score st = Some (calculate_frequency_score tf (current_counts s)))"

text \<open>\<open>walked\<close>: the two lists that round \<open>i\<close> walks from the state \<open>st\<close>:
  \<open>list(selected)\<close> of the removal pass, and \<open>list(available)\<close> of the addition pass
  (built from the selection that the removal pass leaves).\<close>

definition walked ::
  "targets \<Rightarrow> tag_counts list \<Rightarrow> nat \<Rightarrow> order \<Rightarrow> nat \<Rightarrow> balance_state \<Rightarrow> nat list \<times> nat list" where
  "walked tf sentence_tag_counts n ord i st =
     (let removal = py_list (ord (Removal i)) (selected st);
          (sel, cc, improved) =
            removal_pass tf sentence_tag_counts ord i (selected st, current_counts st, False)
      in (removal, py_list (ord (Addition i)) ({0..<n} - sel)))"

section \<open>Sentences that can be written and read back\<close>

text \<open>\<open>field\<close>: a string that \<open>split()\<close> returns as one piece (not empty, no whitespace).
  \<open>wf_sentence\<close>: a sentence as \<open>read_conll\<close> builds them: not empty, tokens and labels
  are fields, and no token starts with \<open>-DOCSTART-\<close>. \<open>sentence_lines\<close>: the lines that
  \<open>write_conll\<close> writes for the pairs of a sentence.\<close>

definition field :: "string \<Rightarrow> bool" where
  "field w = (w \<noteq> [] \<and> (\<forall>c\<in>set w. \<not> is_space c))"

definition wf_sentence :: "sentence \<Rightarrow> bool" where
  "wf_sentence s =
     (s \<noteq> [] \<and>
      (\<forall>(word, tag)\<in>set s. field word \<and> field tag \<and> \<not> startswith word ''-DOCSTART-''))"

definition sentence_lines :: "sentence \<Rightarrow> string list" where
  "sentence_lines s = map (\<lambda>(word, tag). word @ '' -X- _ '' @ tag @ [LF]) s"

section \<open>The admission rules\<close>

lemma should_remove_sentence_iff:
  "should_remove_sentence tf idx sc cc \<longleftrightarrow>
     (\<forall>(tag, count) \<in> set sc. \<forall>target. map_of tf tag = Some target \<longrightarrow>
        \<not> dd_get cc tag < target \<and>
        \<not> real_of_int (dd_get cc tag - count) < real_of_int target * 0.8)"
proof (induction sc)
  case Nil
  show ?case by simp
next
  case (Cons p sc)
  obtain tag count where p: "p = (tag, count)" by (cases p)
  show ?case
  proof (cases "map_of tf tag")
    case None
    then show ?thesis using Cons.IH by (simp add: p)
  next
    case (Some target)
    show ?thesis
    proof (cases "dd_get cc tag < target \<or>
        real_of_int (dd_get cc tag - count) < real_of_int target * 0.8")
      case True
      then have "\<not> should_remove_sentence tf idx (p # sc) cc"
        by (auto simp add: p Some Let_def)
      moreover have "\<not> (\<forall>(tag, count) \<in> set (p # sc). \<forall>target. map_of tf tag = Some target \<longrightarrow>
        \<not> dd_get cc tag < target \<and>
        \<not> real_of_int (dd_get cc tag - count) < real_of_int target * 0.8)"
        using True Some unfolding p by (simp only: list.set ball_simps split_conv) blast
      ultimately show ?thesis by blast
    next
      case False
      then have "should_remove_sentence tf idx (p # sc) cc = should_remove_sentence tf idx sc cc"
        by (auto simp add: p Some Let_def)
      moreover have "(\<forall>(tag, count) \<in> set (p # sc). \<forall>target. map_of tf tag = Some target \<longrightarrow>
        \<not> dd_get cc tag < target \<and>
        \<not> real_of_int (dd_get cc tag - count) < real_of_int target * 0.8) =
        (\<forall>(tag, count) \<in> set sc. \<forall>target. map_of tf tag = Some target \<longrightarrow>
        \<not> dd_get cc tag < target \<and>
        \<not> real_of_int (dd_get cc tag - count) < real_of_int target * 0.8)"
        using False Some unfolding p by (simp only: list.set ball_simps split_conv) auto
      ultimately show ?thesis using Cons.IH by simp
    qed
  qed
qed

text \<open>
  Claim C1 (removal admission rule). \<open>should_remove_sentence\<close> answers \<open>True\<close> exactly when
  no target label of the sentence vetoes: a label of \<open>sentence_counts\<close> that is a key of
  the targets vetoes when the current aggregate for it is below its target, and when
  the aggregate minus the sentence's count is below 0.8 times the target. A sentence
  with no target label is removable. The removal pass removes the index (and subtracts
  its counts) exactly when the rule answers \<open>True\<close>.
\<close>

theorem removal_admission_rule:
  "(should_remove_sentence tf idx sc cc \<longleftrightarrow>
      (\<forall>(tag, count) \<in> set sc. \<forall>target. map_of tf tag = Some target \<longrightarrow>
         \<not> dd_get cc tag < target \<and>
         \<not> real_of_int (dd_get cc tag - count) < real_of_int target * 0.8)) \<and>
   ((\<forall>(tag, count) \<in> set sc. map_of tf tag = None) \<longrightarrow>
      should_remove_sentence tf idx sc cc) \<and>
   remove_step tf stc idx (sel, cc, improved) =
     (if should_remove_sentence tf idx (stc ! idx) cc
      then (sel - {idx}, sub_counts (stc ! idx) cc, True)
      else (sel, cc, improved))"
proof (intro conjI)
  show "should_remove_sentence tf idx sc cc \<longleftrightarrow>
      (\<forall>(tag, count) \<in> set sc. \<forall>target. map_of tf tag = Some target \<longrightarrow>
         \<not> dd_get cc tag < target \<and>
         \<not> real_of_int (dd_get cc tag - count) < real_of_int target * 0.8)"
    by (rule should_remove_sentence_iff)
  show "(\<forall>(tag, count) \<in> set sc. map_of tf tag = None) \<longrightarrow>
      should_remove_sentence tf idx sc cc"
    unfolding should_remove_sentence_iff by fastforce
  show "remove_step tf stc idx (sel, cc, improved) =
     (if should_remove_sentence tf idx (stc ! idx) cc
      then (sel - {idx}, sub_counts (stc ! idx) cc, True)
      else (sel, cc, improved))"
    by (simp add: remove_step_def Let_def)
qed

theorem removal_admission_rule_witness:
  "should_remove_sentence [(''B-PER'', 10)] 0 [(''B-PER'', 2), (''MISC'', 1)] [''B-PER'' \<mapsto> 12] \<and>
   \<not> should_remove_sentence [(''B-PER'', 10)] 0 [(''B-PER'', 3)] [''B-PER'' \<mapsto> 10] \<and>
   \<not> should_remove_sentence [(''B-PER'', 10)] 0 [(''B-PER'', 1)] [''B-PER'' \<mapsto> 9] \<and>
   should_remove_sentence [(''B-PER'', 10)] 0 [(''MISC'', 1)] Map.empty \<and>
   remove_step [(''B-PER'', 10)] [[(''B-PER'', 2)]] 0 ({0}, [''B-PER'' \<mapsto> 12], False) =
     ({}, [''B-PER'' \<mapsto> 10], True)"
  using removal_admission_rule [of "[(''B-PER'', 10)]" 0 "[(''B-PER'', 2), (''MISC'', 1)]" "[''B-PER'' \<mapsto> 12]"
          "[[(''B-PER'', 2)]]" "{0}" False]
        removal_admission_rule [of "[(''B-PER'', 10)]" 0 "[(''B-PER'', 3)]" "[''B-PER'' \<mapsto> 10]"]
        removal_admission_rule [of "[(''B-PER'', 10)]" 0 "[(''B-PER'', 1)]" "[''B-PER'' \<mapsto> 9]"]
        removal_admission_rule [of "[(''B-PER'', 10)]" 0 "[(''MISC'', 1)]" "Map.empty"]
  by (simp add: dd_get_def sub_counts_def)

lemma can_add_iff:
  "can_add tf sc cc \<longleftrightarrow>
     (\<forall>(tag, count) \<in> set sc. \<forall>target. map_of tf tag = Some target \<longrightarrow>
        \<not> real_of_int (dd_get cc tag + count) > real_of_int target * 1.1)"
proof (induction sc)
  case Nil
  show ?case by simp
next
  case (Cons p sc)
  obtain tag count where p: "p = (tag, count)" by (cases p)
  show ?case
  proof (cases "map_of tf tag")
    case None
    then show ?thesis using Cons.IH by (simp add: p)
  next
    case (Some target)
    show ?thesis
    proof (cases "real_of_int (dd_get cc tag + count) > real_of_int target * 1.1")
      case True
      then have "\<not> can_add tf (p # sc) cc"
        by (auto simp add: p Some)
      moreover have "\<not> (\<forall>(tag, count) \<in> set (p # sc). \<forall>target. map_of tf tag = Some target \<longrightarrow>
        \<not> real_of_int (dd_get cc tag + count) > real_of_int target * 1.1)"
        using True Some unfolding p by (simp only: list.set ball_simps split_conv) blast
      ultimately show ?thesis by blast
    next
      case False
      then have "can_add tf (p # sc) cc = can_add tf sc cc"
        by (auto simp add: p Some)
      moreover have "(\<forall>(tag, count) \<in> set (p # sc). \<forall>target. map_of tf tag = Some target \<longrightarrow>
        \<not> real_of_int (dd_get cc tag + count) > real_of_int target * 1.1) =
        (\<forall>(tag, count) \<in> set sc. \<forall>target. map_of tf tag = Some target \<longrightarrow>
        \<not> real_of_int (dd_get cc tag + count) > real_of_int target * 1.1)"
        using False Some unfolding p by (simp only: list.set ball_simps split_conv) auto
      ultimately show ?thesis using Cons.IH by simp
    qed
  qed
qed

section \<open>Walking a set, and the counts\<close>

lemma py_list_set: "finite S \<Longrightarrow> set (py_list perm S) = S"
proof -
  assume f: "finite S"
  let ?xs = "sorted_list_of_set S"
  show ?thesis
  proof (cases "sort (perm ?xs) = ?xs")
    case True
    have "set (perm ?xs) = set (sort (perm ?xs))" by simp
    also have "\<dots> = set ?xs" by (simp only: True)
    also have "\<dots> = S" using f by simp
    finally have "set (perm ?xs) = S" .
    moreover have "py_list perm S = perm ?xs"
      using True by (simp add: py_list_def Let_def)
    ultimately show ?thesis by simp
  next
    case False
    then have "py_list perm S = ?xs" by (simp add: py_list_def Let_def)
    then show ?thesis using f by simp
  qed
qed

lemma py_list_distinct: "distinct (py_list perm S)"
proof -
  let ?xs = "sorted_list_of_set S"
  show ?thesis
  proof (cases "sort (perm ?xs) = ?xs")
    case True
    have "distinct (perm ?xs) = distinct (sort (perm ?xs))" by simp
    also have "\<dots> = distinct ?xs" by (simp only: True)
    finally have "distinct (perm ?xs)" by simp
    moreover have "py_list perm S = perm ?xs"
      using True by (simp add: py_list_def Let_def)
    ultimately show ?thesis by simp
  next
    case False
    then have "py_list perm S = ?xs" by (simp add: py_list_def Let_def)
    then show ?thesis by simp
  qed
qed

lemma dd_get_upd: "dd_get (cc(t \<mapsto> v)) tag = (if tag = t then v else dd_get cc tag)"
  by (simp add: dd_get_def)

lemma count_of_Cons: "count_of ((t, c) # sc) tag = (if tag = t then c else count_of sc tag)"
  by (simp add: count_of_def)

lemma count_of_absent: "tag \<notin> fst ` set sc \<Longrightarrow> count_of sc tag = 0"
  by (simp add: count_of_def map_of_eq_None_iff[THEN iffD2])

lemma dd_get_add_counts:
  "distinct (map fst sc) \<Longrightarrow> dd_get (add_counts sc cc) tag = dd_get cc tag + count_of sc tag"
proof (induction sc arbitrary: cc)
  case Nil
  show ?case by (simp add: add_counts_def count_of_def)
next
  case (Cons p sc)
  obtain t c where p: "p = (t, c)" by (cases p)
  from Cons.prems have d: "distinct (map fst sc)" and t: "t \<notin> fst ` set sc"
    by (simp_all add: p)
  have unfold: "add_counts (p # sc) cc = add_counts sc (cc(t \<mapsto> dd_get cc t + c))"
    by (simp add: add_counts_def p)
  have "dd_get (add_counts sc (cc(t \<mapsto> dd_get cc t + c))) tag =
        dd_get (cc(t \<mapsto> dd_get cc t + c)) tag + count_of sc tag"
    by (rule Cons.IH[OF d])
  also have "\<dots> = dd_get cc tag + count_of ((t, c) # sc) tag"
    using t by (simp only: dd_get_upd count_of_Cons) (simp add: count_of_absent)
  finally show ?case unfolding unfold unfolding p .
qed

lemma dd_get_sub_counts:
  "distinct (map fst sc) \<Longrightarrow> dd_get (sub_counts sc cc) tag = dd_get cc tag - count_of sc tag"
proof (induction sc arbitrary: cc)
  case Nil
  show ?case by (simp add: sub_counts_def count_of_def)
next
  case (Cons p sc)
  obtain t c where p: "p = (t, c)" by (cases p)
  from Cons.prems have d: "distinct (map fst sc)" and t: "t \<notin> fst ` set sc"
    by (simp_all add: p)
  have unfold: "sub_counts (p # sc) cc = sub_counts sc (cc(t \<mapsto> dd_get cc t - c))"
    by (simp add: sub_counts_def p)
  have "dd_get (sub_counts sc (cc(t \<mapsto> dd_get cc t - c))) tag =
        dd_get (cc(t \<mapsto> dd_get cc t - c)) tag - count_of sc tag"
    by (rule Cons.IH[OF d])
  also have "\<dots> = dd_get cc tag - count_of ((t, c) # sc) tag"
    using t by (simp only: dd_get_upd count_of_Cons) (simp add: count_of_absent)
  finally show ?case unfolding unfold unfolding p .
qed

lemma keys_incr_tag:
  "map fst (incr_tag tag sc) = (if tag \<in> fst ` set sc then map fst sc else map fst sc @ [tag])"
proof (induction sc)
  case Nil
  show ?case by simp
next
  case (Cons p sc)
  obtain t c where p: "p = (t, c)" by (cases p)
  show ?case
  proof (cases "t = tag")
    case True
    then show ?thesis by (simp add: p)
  next
    case False
    then show ?thesis using Cons.IH by (simp add: p)
  qed
qed

lemma distinct_incr_tag: "distinct (map fst sc) \<Longrightarrow> distinct (map fst (incr_tag tag sc))"
  by (simp add: keys_incr_tag)

lemma distinct_fold_incr:
  "distinct (map fst sc) \<Longrightarrow>
   distinct (map fst (fold (\<lambda>(_, tag) counts. if tag \<noteq> ''O'' then incr_tag tag counts else counts) sent sc))"
proof (induction sent arbitrary: sc)
  case Nil
  then show ?case by simp
next
  case (Cons p sent)
  obtain w tag where p: "p = (w, tag)" by (cases p)
  show ?case
  proof (cases "tag = ''O''")
    case True
    then show ?thesis using Cons.IH[OF Cons.prems] by (simp add: p)
  next
    case False
    have "distinct (map fst (incr_tag tag sc))"
      using Cons.prems by (rule distinct_incr_tag)
    then show ?thesis using Cons.IH[of "incr_tag tag sc"] False by (simp add: p)
  qed
qed

lemma distinct_get_sentence_tag_counts: "distinct (map fst (get_sentence_tag_counts sent))"
  unfolding get_sentence_tag_counts_def by (rule distinct_fold_incr) simp


section \<open>The count invariant\<close>

lemma remove_step_cases:
  "remove_step tf stc idx (sel, cc, imp) = (sel, cc, imp) \<or>
   remove_step tf stc idx (sel, cc, imp) = (sel - {idx}, sub_counts (stc ! idx) cc, True)"
  by (simp add: remove_step_def Let_def)

lemma add_step_cases:
  "add_step tf stc idx (sel, cc, imp) = (sel, cc, imp) \<or>
   add_step tf stc idx (sel, cc, imp) = (insert idx sel, add_counts (stc ! idx) cc, True)"
  by (simp add: add_step_def Let_def)

lemma counts_ok_remove:
  assumes "finite sel" "idx \<in> sel" "distinct (map fst (stc ! idx))" "counts_ok stc sel cc"
  shows "counts_ok stc (sel - {idx}) (sub_counts (stc ! idx) cc)"
  unfolding counts_ok_def
proof
  fix tag
  have "(\<Sum>i\<in>sel - {idx}. count_of (stc ! i) tag) =
        (\<Sum>i\<in>sel. count_of (stc ! i) tag) - count_of (stc ! idx) tag"
    using assms(1,2) by (simp add: sum_diff1)
  then show "dd_get (sub_counts (stc ! idx) cc) tag = (\<Sum>i\<in>sel - {idx}. count_of (stc ! i) tag)"
    using assms(3,4) by (simp add: dd_get_sub_counts counts_ok_def)
qed

lemma counts_ok_add:
  assumes "finite sel" "idx \<notin> sel" "distinct (map fst (stc ! idx))" "counts_ok stc sel cc"
  shows "counts_ok stc (insert idx sel) (add_counts (stc ! idx) cc)"
  unfolding counts_ok_def
proof
  fix tag
  have "(\<Sum>i\<in>insert idx sel. count_of (stc ! i) tag) =
        count_of (stc ! idx) tag + (\<Sum>i\<in>sel. count_of (stc ! i) tag)"
    using assms(1,2) by simp
  then show "dd_get (add_counts (stc ! idx) cc) tag = (\<Sum>i\<in>insert idx sel. count_of (stc ! i) tag)"
    using assms(3,4) by (simp add: dd_get_add_counts counts_ok_def)
qed

lemma fold_remove_step:
  assumes "distinct xs" "set xs \<subseteq> sel" "finite sel"
    and "\<forall>idx\<in>set xs. distinct (map fst (stc ! idx))"
    and "counts_ok stc sel cc"
    and "fold (remove_step tf stc) xs (sel, cc, imp) = (sel', cc', imp')"
  shows "counts_ok stc sel' cc' \<and> sel' \<subseteq> sel \<and> sel - set xs \<subseteq> sel'"
  using assms
proof (induction xs arbitrary: sel cc imp)
  case Nil
  then show ?case by simp
next
  case (Cons x xs)
  from remove_step_cases[of tf stc x sel cc imp]
  show ?case
  proof
    assume eq: "remove_step tf stc x (sel, cc, imp) = (sel, cc, imp)"
    have "counts_ok stc sel' cc' \<and> sel' \<subseteq> sel \<and> sel - set xs \<subseteq> sel'"
    proof (rule Cons.IH)
      show "distinct xs" using Cons.prems(1) by simp
      show "set xs \<subseteq> sel" using Cons.prems(2) by simp
      show "finite sel" by (rule Cons.prems(3))
      show "\<forall>idx\<in>set xs. distinct (map fst (stc ! idx))" using Cons.prems(4) by simp
      show "counts_ok stc sel cc" by (rule Cons.prems(5))
      show "fold (remove_step tf stc) xs (sel, cc, imp) = (sel', cc', imp')"
        using Cons.prems(6) eq by simp
    qed
    then show ?thesis by auto
  next
    assume eq: "remove_step tf stc x (sel, cc, imp) = (sel - {x}, sub_counts (stc ! x) cc, True)"
    have "counts_ok stc sel' cc' \<and> sel' \<subseteq> sel - {x} \<and> (sel - {x}) - set xs \<subseteq> sel'"
    proof (rule Cons.IH)
      show "distinct xs" using Cons.prems(1) by simp
      show "set xs \<subseteq> sel - {x}" using Cons.prems(1,2) by auto
      show "finite (sel - {x})" using Cons.prems(3) by simp
      show "\<forall>idx\<in>set xs. distinct (map fst (stc ! idx))" using Cons.prems(4) by simp
      show "counts_ok stc (sel - {x}) (sub_counts (stc ! x) cc)"
        using Cons.prems(2,3,4,5) by (intro counts_ok_remove) auto
      show "fold (remove_step tf stc) xs (sel - {x}, sub_counts (stc ! x) cc, True) = (sel', cc', imp')"
        using Cons.prems(6) eq by simp
    qed
    then show ?thesis by auto
  qed
qed

lemma fold_add_step:
  assumes "distinct xs" "set xs \<inter> sel = {}" "finite sel"
    and "\<forall>idx\<in>set xs. distinct (map fst (stc ! idx))"
    and "counts_ok stc sel cc"
    and "fold (add_step tf stc) xs (sel, cc, imp) = (sel', cc', imp')"
  shows "counts_ok stc sel' cc' \<and> sel \<subseteq> sel' \<and> sel' \<subseteq> sel \<union> set xs"
  using assms
proof (induction xs arbitrary: sel cc imp)
  case Nil
  then show ?case by simp
next
  case (Cons x xs)
  from add_step_cases[of tf stc x sel cc imp]
  show ?case
  proof
    assume eq: "add_step tf stc x (sel, cc, imp) = (sel, cc, imp)"
    have "counts_ok stc sel' cc' \<and> sel \<subseteq> sel' \<and> sel' \<subseteq> sel \<union> set xs"
    proof (rule Cons.IH)
      show "distinct xs" using Cons.prems(1) by simp
      show "set xs \<inter> sel = {}" using Cons.prems(2) by auto
      show "finite sel" by (rule Cons.prems(3))
      show "\<forall>idx\<in>set xs. distinct (map fst (stc ! idx))" using Cons.prems(4) by simp
      show "counts_ok stc sel cc" by (rule Cons.prems(5))
      show "fold (add_step tf stc) xs (sel, cc, imp) = (sel', cc', imp')"
        using Cons.prems(6) eq by simp
    qed
    then show ?thesis by auto
  next
    assume eq: "add_step tf stc x (sel, cc, imp) = (insert x sel, add_counts (stc ! x) cc, True)"
    have "counts_ok stc sel' cc' \<and> insert x sel \<subseteq> sel' \<and> sel' \<subseteq> insert x sel \<union> set xs"
    proof (rule Cons.IH)
      show "distinct xs" using Cons.prems(1) by simp
      show "set xs \<inter> insert x sel = {}" using Cons.prems(1,2) by auto
      show "finite (insert x sel)" using Cons.prems(3) by simp
      show "\<forall>idx\<in>set xs. distinct (map fst (stc ! idx))" using Cons.prems(4) by simp
      show "counts_ok stc (insert x sel) (add_counts (stc ! x) cc)"
        using Cons.prems(2,3,4,5) by (intro counts_ok_add) auto
      show "fold (add_step tf stc) xs (insert x sel, add_counts (stc ! x) cc, True) = (sel', cc', imp')"
        using Cons.prems(6) eq by simp
    qed
    then show ?thesis by auto
  qed
qed


lemma removal_pass_ok:
  assumes "sel \<subseteq> {0..<n}" "\<forall>idx<n. distinct (map fst (stc ! idx))"
    and "counts_ok stc sel cc"
    and "removal_pass tf stc ord i (sel, cc, imp) = (sel', cc', imp')"
  shows "counts_ok stc sel' cc' \<and> sel' \<subseteq> sel"
proof -
  have fin: "finite sel" using assms(1) by (rule finite_subset) simp
  let ?xs = "py_list (ord (Removal i)) sel"
  have "counts_ok stc sel' cc' \<and> sel' \<subseteq> sel \<and> sel - set ?xs \<subseteq> sel'"
  proof (rule fold_remove_step)
    show "distinct ?xs" by (rule py_list_distinct)
    show "set ?xs \<subseteq> sel" using fin by (simp add: py_list_set)
    show "finite sel" by (rule fin)
    show "\<forall>idx\<in>set ?xs. distinct (map fst (stc ! idx))"
      using assms(1,2) fin by (auto simp: py_list_set)
    show "counts_ok stc sel cc" by (rule assms(3))
    show "fold (remove_step tf stc) ?xs (sel, cc, imp) = (sel', cc', imp')"
      using assms(4) by (simp add: removal_pass_def)
  qed
  then show ?thesis by simp
qed

lemma addition_pass_ok:
  assumes "sel \<subseteq> {0..<n}" "\<forall>idx<n. distinct (map fst (stc ! idx))"
    and "counts_ok stc sel cc"
    and "addition_pass tf stc n ord i (sel, cc, imp) = (sel', cc', imp')"
  shows "counts_ok stc sel' cc' \<and> sel \<subseteq> sel' \<and> sel' \<subseteq> {0..<n}"
proof -
  have fin: "finite sel" using assms(1) by (rule finite_subset) simp
  let ?xs = "py_list (ord (Addition i)) ({0..<n} - sel)"
  have set_xs: "set ?xs = {0..<n} - sel" by (simp add: py_list_set)
  have "counts_ok stc sel' cc' \<and> sel \<subseteq> sel' \<and> sel' \<subseteq> sel \<union> set ?xs"
  proof (rule fold_add_step)
    show "distinct ?xs" by (rule py_list_distinct)
    show "set ?xs \<inter> sel = {}" using set_xs by auto
    show "finite sel" by (rule fin)
    show "\<forall>idx\<in>set ?xs. distinct (map fst (stc ! idx))"
      using assms(2) set_xs by auto
    show "counts_ok stc sel cc" by (rule assms(3))
    show "fold (add_step tf stc) ?xs (sel, cc, imp) = (sel', cc', imp')"
      using assms(4) by (simp add: addition_pass_def Let_def)
  qed
  then show ?thesis using assms(1) set_xs by auto
qed

lemma iteration_selected:
  assumes "iteration tf stc n ord i st = (st', imp)"
  shows "addition_pass tf stc n ord i
           (removal_pass tf stc ord i (selected st, current_counts st, False)) =
         (selected st', current_counts st', imp)"
  using assms
  by (auto simp: iteration_def Let_def split: prod.splits if_splits)

lemma iteration_ok:
  assumes "\<forall>idx<n. distinct (map fst (stc ! idx))" "state_ok stc n st"
    and "iteration tf stc n ord i st = (st', imp)"
  shows "state_ok stc n st'"
proof -
  obtain sel1 cc1 imp1 where r:
    "removal_pass tf stc ord i (selected st, current_counts st, False) = (sel1, cc1, imp1)"
    by (cases "removal_pass tf stc ord i (selected st, current_counts st, False)")
  have 1: "counts_ok stc sel1 cc1 \<and> sel1 \<subseteq> selected st"
    using assms(1,2) r by (intro removal_pass_ok[where n=n]) (auto simp: state_ok_def)
  have a: "addition_pass tf stc n ord i (sel1, cc1, imp1) =
           (selected st', current_counts st', imp)"
    using iteration_selected[OF assms(3)] r by simp
  have "counts_ok stc (selected st') (current_counts st') \<and> sel1 \<subseteq> selected st' \<and>
        selected st' \<subseteq> {0..<n}"
  proof (rule addition_pass_ok[OF _ assms(1) _ a])
    show "sel1 \<subseteq> {0..<n}" using 1 assms(2) by (auto simp: state_ok_def)
    show "counts_ok stc sel1 cc1" using 1 by simp
  qed
  then show ?thesis by (simp add: state_ok_def)
qed

lemma balance_trace_ok:
  assumes "\<forall>idx<n. distinct (map fst (stc ! idx))" "state_ok stc n st"
  shows "\<forall>st'\<in>set (balance_trace tf stc n ord i k st). state_ok stc n st'"
  using assms(2)
proof (induction k arbitrary: i st)
  case 0
  show ?case by simp
next
  case (Suc k)
  obtain st1 imp where it: "iteration tf stc n ord i st = (st1, imp)"
    by (cases "iteration tf stc n ord i st")
  have ok1: "state_ok stc n st1" using assms(1) Suc.prems it by (rule iteration_ok)
  show ?case using Suc.IH[OF ok1] ok1 it by auto
qed

lemma fold_add_counts:
  assumes "\<forall>idx\<in>set xs. distinct (map fst (stc ! idx))"
  shows "dd_get (fold (\<lambda>idx counts. add_counts (stc ! idx) counts) xs cc) tag =
         dd_get cc tag + (\<Sum>idx\<leftarrow>xs. count_of (stc ! idx) tag)"
  using assms
  by (induction xs arbitrary: cc) (simp_all add: dd_get_add_counts)

lemma get_current_counts_sum:
  assumes "finite S" "\<forall>idx\<in>S. distinct (map fst (stc ! idx))"
  shows "dd_get (get_current_counts perm sents S stc) tag = (\<Sum>idx\<in>S. count_of (stc ! idx) tag)"
proof -
  let ?xs = "py_list perm S"
  have "dd_get (get_current_counts perm sents S stc) tag =
        dd_get Map.empty tag + (\<Sum>idx\<leftarrow>?xs. count_of (stc ! idx) tag)"
    unfolding get_current_counts_def
    using assms by (intro fold_add_counts) (simp add: py_list_set)
  also have "\<dots> = (\<Sum>idx\<in>set ?xs. count_of (stc ! idx) tag)"
    by (simp add: dd_get_def sum_list_distinct_conv_sum_set py_list_distinct)
  finally show ?thesis using assms(1) by (simp add: py_list_set)
qed

lemma wf_sentence_tag_counts:
  "\<forall>idx<length sentences. distinct (map fst (map get_sentence_tag_counts sentences ! idx))"
  by (simp add: distinct_get_sentence_tag_counts)

lemma initial_state_ok:
  "state_ok (map get_sentence_tag_counts sentences) (length sentences) (initial_state ord sentences)"
  unfolding state_ok_def counts_ok_def initial_state_def Let_def
  by (simp add: get_current_counts_sum distinct_get_sentence_tag_counts)

lemma balance_states_ok:
  "st \<in> set (balance_states tf max_iterations ord sentences) \<Longrightarrow>
   state_ok (map get_sentence_tag_counts sentences) (length sentences) st"
  unfolding balance_states_def
  using balance_trace_ok[OF wf_sentence_tag_counts initial_state_ok] initial_state_ok
  by auto


lemma balance_loop_trace:
  "balance_loop tf stc n ord i k st = last (st # balance_trace tf stc n ord i k st)"
proof (induction k arbitrary: i st)
  case 0
  show ?case by simp
next
  case (Suc k)
  obtain st1 imp where it: "iteration tf stc n ord i st = (st1, imp)"
    by (cases "iteration tf stc n ord i st")
  show ?case using Suc.IH[of "Suc i" st1] it by simp
qed

lemma final_state_last:
  "final_state tf max_iterations ord sentences =
   last (balance_states tf max_iterations ord sentences)"
  by (simp only: final_state_def balance_states_def balance_loop_trace)

lemma length_balance_trace: "length (balance_trace tf stc n ord i k st) \<le> k"
proof (induction k arbitrary: i st)
  case 0
  show ?case by simp
next
  case (Suc k)
  obtain st1 imp where it: "iteration tf stc n ord i st = (st1, imp)"
    by (cases "iteration tf stc n ord i st")
  show ?case using Suc.IH[of "Suc i" st1] it by simp
qed

text \<open>
  Claim C3 (count invariant). At every iteration boundary of \<open>balance_dataset\<close> (before
  the loop and at the end of each round) and for every label, the incrementally
  maintained \<open>current_counts\<close> reads as the sum of the label's counts over the sentences
  in \<open>selected\<close>, and as \<open>get_current_counts\<close> recomputed over \<open>selected\<close> (in whatever
  order the set is walked).
\<close>

theorem count_invariant:
  assumes "k < length (balance_states tf max_iterations ord sentences)"
  shows "let st = balance_states tf max_iterations ord sentences ! k in
           dd_get (current_counts st) tag =
             (\<Sum>idx\<in>selected st. count_of (get_sentence_tag_counts (sentences ! idx)) tag) \<and>
           dd_get (current_counts st) tag =
             dd_get (get_current_counts perm sentences (selected st)
                       (map get_sentence_tag_counts sentences)) tag"
proof -
  let ?stc = "map get_sentence_tag_counts sentences"
  let ?st = "balance_states tf max_iterations ord sentences ! k"
  have "?st \<in> set (balance_states tf max_iterations ord sentences)"
    using assms by simp
  then have ok: "state_ok ?stc (length sentences) ?st" by (rule balance_states_ok)
  then have sub: "selected ?st \<subseteq> {0..<length sentences}"
    and c: "counts_ok ?stc (selected ?st) (current_counts ?st)"
    by (simp_all add: state_ok_def)
  have fin: "finite (selected ?st)" using sub by (rule finite_subset) simp
  have 1: "dd_get (current_counts ?st) tag = (\<Sum>idx\<in>selected ?st. count_of (?stc ! idx) tag)"
    using c by (simp add: counts_ok_def)
  have 2: "(\<Sum>idx\<in>selected ?st. count_of (?stc ! idx) tag) =
           (\<Sum>idx\<in>selected ?st. count_of (get_sentence_tag_counts (sentences ! idx)) tag)"
    using sub by (intro sum.cong) auto
  have 3: "dd_get (get_current_counts perm sentences (selected ?st) ?stc) tag =
           (\<Sum>idx\<in>selected ?st. count_of (?stc ! idx) tag)"
    using fin sub by (intro get_current_counts_sum) (auto simp: distinct_get_sentence_tag_counts)
  show ?thesis using 1 2 3 by (simp add: Let_def)
qed

theorem count_invariant_witness:
  "1 < length (balance_states [(''A'', 1)] 50 ascending
         [[(''x'', ''A'')], [(''y'', ''A'')], [(''z'', ''A'')]]) \<and>
   (let st = balance_states [(''A'', 1)] 50 ascending
         [[(''x'', ''A'')], [(''y'', ''A'')], [(''z'', ''A'')]] ! 1 in
      dd_get (current_counts st) ''A'' =
        (\<Sum>idx\<in>selected st. count_of (get_sentence_tag_counts
           ([[(''x'', ''A'')], [(''y'', ''A'')], [(''z'', ''A'')]] ! idx)) ''A'') \<and>
      dd_get (current_counts st) ''A'' =
        dd_get (get_current_counts rev [[(''x'', ''A'')], [(''y'', ''A'')], [(''z'', ''A'')]]
                  (selected st)
                  (map get_sentence_tag_counts
                     [[(''x'', ''A'')], [(''y'', ''A'')], [(''z'', ''A'')]])) ''A'')"
proof -
  have h: "1 < length (balance_states [(''A'', 1)] 50 ascending
         [[(''x'', ''A'')], [(''y'', ''A'')], [(''z'', ''A'')]])"
    by code_simp
  show ?thesis using h count_invariant[OF h, of "''A''" rev] by blast
qed

section \<open>The addition pass\<close>

text \<open>
  The addition pass walks \<open>list(available)\<close> once and only ever adds: what it returns
  holds the selection it started from, and a candidate is in it exactly when its own
  step added it.
\<close>

lemma fold_add_step_bounds:
  assumes "fold (add_step tf stc) xs (sel, cc, imp) = (sel', cc', imp')"
  shows "sel \<subseteq> sel' \<and> sel' \<subseteq> sel \<union> set xs"
  using assms
proof (induction xs arbitrary: sel cc imp)
  case Nil
  then show ?case by simp
next
  case (Cons x xs)
  from add_step_cases[of tf stc x sel cc imp]
  show ?case
  proof
    assume "add_step tf stc x (sel, cc, imp) = (sel, cc, imp)"
    then show ?thesis using Cons.IH[of sel cc imp] Cons.prems by auto
  next
    assume "add_step tf stc x (sel, cc, imp) = (insert x sel, add_counts (stc ! x) cc, True)"
    then show ?thesis
      using Cons.IH[of "insert x sel" "add_counts (stc ! x) cc" True] Cons.prems by auto
  qed
qed

lemma add_step_member:
  assumes "idx \<notin> sel"
  shows "idx \<in> fst (add_step tf stc idx (sel, cc, imp)) \<longleftrightarrow> can_add tf (stc ! idx) cc"
  using assms by (simp add: add_step_def Let_def)

lemma fold_add_step_candidate:
  assumes "distinct xs" "set xs \<inter> sel = {}" "k < length xs"
    and "fold (add_step tf stc) (take k xs) (sel, cc, imp) = (sel_k, cc_k, imp_k)"
  shows "xs ! k \<in> fst (fold (add_step tf stc) xs (sel, cc, imp)) \<longleftrightarrow>
           can_add tf (stc ! (xs ! k)) cc_k"
    and "fold (add_step tf stc) (take (Suc k) xs) (sel, cc, imp) =
           add_step tf stc (xs ! k) (sel_k, cc_k, imp_k)"
proof -
  let ?x = "xs ! k"
  have xs: "xs = take k xs @ ?x # drop (Suc k) xs"
    using assms(3) by (simp add: id_take_nth_drop)
  have "distinct (take k xs @ ?x # drop (Suc k) xs)"
    by (simp only: id_take_nth_drop[OF assms(3), symmetric] assms(1))
  then have nb: "?x \<notin> set (take k xs)" and na: "?x \<notin> set (drop (Suc k) xs)"
    by simp_all
  have ns: "?x \<notin> sel" using assms(2) nth_mem[OF assms(3)] by blast
  have "sel_k \<subseteq> sel \<union> set (take k xs)"
    using fold_add_step_bounds[OF assms(4)] by simp
  then have nk: "?x \<notin> sel_k" using nb ns by auto
  show step: "fold (add_step tf stc) (take (Suc k) xs) (sel, cc, imp) =
           add_step tf stc ?x (sel_k, cc_k, imp_k)"
    using assms(3,4) by (simp add: take_Suc_conv_app_nth)
  obtain s1 c1 i1 where mid: "add_step tf stc ?x (sel_k, cc_k, imp_k) = (s1, c1, i1)"
    by (cases "add_step tf stc ?x (sel_k, cc_k, imp_k)")
  obtain s2 c2 i2 where fin: "fold (add_step tf stc) (drop (Suc k) xs) (s1, c1, i1) = (s2, c2, i2)"
    by (cases "fold (add_step tf stc) (drop (Suc k) xs) (s1, c1, i1)")
  have "fold (add_step tf stc) xs (sel, cc, imp) =
        fold (add_step tf stc) (drop (Suc k) xs)
          (add_step tf stc ?x (fold (add_step tf stc) (take k xs) (sel, cc, imp)))"
    by (subst xs) simp
  then have whole: "fold (add_step tf stc) xs (sel, cc, imp) = (s2, c2, i2)"
    using assms(4) mid fin by simp
  have "s1 \<subseteq> s2 \<and> s2 \<subseteq> s1 \<union> set (drop (Suc k) xs)"
    by (rule fold_add_step_bounds[OF fin])
  then have "?x \<in> s2 \<longleftrightarrow> ?x \<in> s1" using na by auto
  also have "\<dots> \<longleftrightarrow> can_add tf (stc ! ?x) cc_k"
    using add_step_member[OF nk, of tf stc cc_k imp_k] mid by simp
  finally show "?x \<in> fst (fold (add_step tf stc) xs (sel, cc, imp)) \<longleftrightarrow>
           can_add tf (stc ! ?x) cc_k"
    using whole by simp
qed

text \<open>
  Claim C2 (addition admission rule). The addition pass evaluates every sentence that is
  not in the selection exactly once (\<open>xs\<close> is \<open>list(available)\<close>). The candidate at
  position \<open>k\<close> meets the aggregate \<open>cc_k\<close> that the candidates before it have left, and
  it is in the selection that the pass returns if and only if, for every target label it
  has, that aggregate plus its count does not exceed 1.1 times the target (\<open>target * 1.1\<close>
  in exact arithmetic). One label past the bound refuses the whole sentence, which leaves
  the selection, the aggregate and the flag as they are; labels that are not targets are
  not looked at. An admitted candidate is inserted, its counts are added to the aggregate
  and the flag is set. The pass adds nothing else and removes nothing.
\<close>

theorem addition_admission_rule:
  assumes "xs = py_list (ord (Addition i)) ({0..<n} - sel)"
    and "k < length xs"
    and "fold (add_step tf stc) (take k xs) (sel, cc, improved) = (sel_k, cc_k, imp_k)"
  shows "set xs = {0..<n} - sel \<and> distinct xs \<and>
    (xs ! k \<in> fst (addition_pass tf stc n ord i (sel, cc, improved)) \<longleftrightarrow>
       (\<forall>(tag, count) \<in> set (stc ! (xs ! k)). \<forall>target. map_of tf tag = Some target \<longrightarrow>
          real_of_int (dd_get cc_k tag + count) \<le> real_of_int target * 1.1)) \<and>
    fold (add_step tf stc) (take (Suc k) xs) (sel, cc, improved) =
      (if \<forall>(tag, count) \<in> set (stc ! (xs ! k)). \<forall>target. map_of tf tag = Some target \<longrightarrow>
            real_of_int (dd_get cc_k tag + count) \<le> real_of_int target * 1.1
       then (insert (xs ! k) sel_k, add_counts (stc ! (xs ! k)) cc_k, True)
       else (sel_k, cc_k, imp_k)) \<and>
    addition_pass tf stc n ord i (sel, cc, improved) =
      fold (add_step tf stc) xs (sel, cc, improved) \<and>
    sel \<subseteq> fst (addition_pass tf stc n ord i (sel, cc, improved)) \<and>
    fst (addition_pass tf stc n ord i (sel, cc, improved)) \<subseteq> sel \<union> {0..<n}"
proof -
  let ?ok = "\<forall>(tag, count) \<in> set (stc ! (xs ! k)). \<forall>target. map_of tf tag = Some target \<longrightarrow>
          real_of_int (dd_get cc_k tag + count) \<le> real_of_int target * 1.1"
  have ok: "can_add tf (stc ! (xs ! k)) cc_k \<longleftrightarrow> ?ok"
    unfolding can_add_iff by (simp add: not_less)
  have set_xs: "set xs = {0..<n} - sel" unfolding assms(1) by (simp add: py_list_set)
  have dist: "distinct xs" unfolding assms(1) by (rule py_list_distinct)
  have disj: "set xs \<inter> sel = {}" using set_xs by auto
  have pass: "addition_pass tf stc n ord i (sel, cc, improved) =
      fold (add_step tf stc) xs (sel, cc, improved)"
    by (simp add: addition_pass_def Let_def assms(1))
  note cand = fold_add_step_candidate[OF dist disj assms(2) assms(3)]
  have mem: "xs ! k \<in> fst (addition_pass tf stc n ord i (sel, cc, improved)) \<longleftrightarrow> ?ok"
    unfolding pass using cand(1) ok by simp
  have step: "fold (add_step tf stc) (take (Suc k) xs) (sel, cc, improved) =
      (if ?ok then (insert (xs ! k) sel_k, add_counts (stc ! (xs ! k)) cc_k, True)
       else (sel_k, cc_k, imp_k))"
    unfolding cand(2) using ok by (simp add: add_step_def Let_def)
  obtain s2 c2 i2 where fin: "fold (add_step tf stc) xs (sel, cc, improved) = (s2, c2, i2)"
    by (cases "fold (add_step tf stc) xs (sel, cc, improved)")
  have bounds: "sel \<subseteq> fst (addition_pass tf stc n ord i (sel, cc, improved)) \<and>
    fst (addition_pass tf stc n ord i (sel, cc, improved)) \<subseteq> sel \<union> {0..<n}"
    unfolding pass using fold_add_step_bounds[OF fin] fin set_xs by auto
  show ?thesis using set_xs dist mem step pass bounds by blast
qed

theorem addition_admission_rule_witness:
  "[1, 2] = py_list (ascending (Addition 0)) ({0..<3} - {0}) \<and>
   (1::nat) < length [1::nat, 2] \<and>
   fold (add_step [(''B-PER'', 10)] [[(''B-PER'', 10)], [(''B-PER'', 1), (''MISC'', 7)], [(''B-PER'', 1)]])
     (take 1 [1, 2]) ({0}, [''B-PER'' \<mapsto> 10], False) =
     ({0, 1}, [''B-PER'' \<mapsto> 11, ''MISC'' \<mapsto> 7], True) \<and>
   1 \<in> fst (addition_pass [(''B-PER'', 10)]
          [[(''B-PER'', 10)], [(''B-PER'', 1), (''MISC'', 7)], [(''B-PER'', 1)]] 3 ascending 0
          ({0}, [''B-PER'' \<mapsto> 10], False)) \<and>
   2 \<notin> fst (addition_pass [(''B-PER'', 10)]
          [[(''B-PER'', 10)], [(''B-PER'', 1), (''MISC'', 7)], [(''B-PER'', 1)]] 3 ascending 0
          ({0}, [''B-PER'' \<mapsto> 10], False))"
proof -
  let ?tf = "[(''B-PER'', 10::int)]"
  let ?stc = "[[(''B-PER'', 10::int)], [(''B-PER'', 1), (''MISC'', 7)], [(''B-PER'', 1)]]"
  have h1: "[1, 2] = py_list (ascending (Addition 0)) ({0..<3} - {0})" by code_simp
  have h2: "(1::nat) < length [1::nat, 2]" by simp
  have h2': "(0::nat) < length [1::nat, 2]" by simp
  have h3: "fold (add_step ?tf ?stc) (take 1 [1, 2]) ({0}, [''B-PER'' \<mapsto> 10], False) =
     ({0, 1}, [''B-PER'' \<mapsto> 11, ''MISC'' \<mapsto> 7], True)"
    by (auto simp add: add_step_def add_counts_def dd_get_def)
  have h3': "fold (add_step ?tf ?stc) (take 0 [1, 2]) ({0}, [''B-PER'' \<mapsto> 10], False) =
     ({0}, [''B-PER'' \<mapsto> 10], False)"
    by simp
  note at_1 = addition_admission_rule[where ord = ascending and i = 0 and n = 3, OF h1 h2 h3]
  note at_0 = addition_admission_rule[where ord = ascending and i = 0 and n = 3, OF h1 h2' h3']
  have m2: "[1::nat, 2] ! 1 \<in> fst (addition_pass ?tf ?stc 3 ascending 0
              ({0}, [''B-PER'' \<mapsto> 10], False)) \<longleftrightarrow>
            (\<forall>(tag, count) \<in> set (?stc ! ([1, 2] ! 1)). \<forall>target.
               map_of ?tf tag = Some target \<longrightarrow>
               real_of_int (dd_get [''B-PER'' \<mapsto> 11, ''MISC'' \<mapsto> 7] tag + count)
                 \<le> real_of_int target * 1.1)"
    by (rule conjunct1[OF conjunct2[OF conjunct2[OF at_1]]])
  have m1: "[1::nat, 2] ! 0 \<in> fst (addition_pass ?tf ?stc 3 ascending 0
              ({0}, [''B-PER'' \<mapsto> 10], False)) \<longleftrightarrow>
            (\<forall>(tag, count) \<in> set (?stc ! ([1, 2] ! 0)). \<forall>target.
               map_of ?tf tag = Some target \<longrightarrow>
               real_of_int (dd_get [''B-PER'' \<mapsto> 10] tag + count)
                 \<le> real_of_int target * 1.1)"
    by (rule conjunct1[OF conjunct2[OF conjunct2[OF at_0]]])
  have in1: "1 \<in> fst (addition_pass ?tf ?stc 3 ascending 0 ({0}, [''B-PER'' \<mapsto> 10], False))"
    using m1 by (simp add: dd_get_def)
  have out2: "2 \<notin> fst (addition_pass ?tf ?stc 3 ascending 0 ({0}, [''B-PER'' \<mapsto> 10], False))"
    using m2 by (simp add: dd_get_def)
  show ?thesis by (intro conjI h1 h2 h3 in1 out2)
qed

section \<open>Termination\<close>

lemma balance_trace_nonempty: "0 < k \<Longrightarrow> balance_trace tf stc n ord i k st \<noteq> []"
  by (cases k) (auto split: prod.splits)

text \<open>
  Claim C5 (termination). The loop is a recursion on the rounds that
  \<open>range(self.max_iterations)\<close> still holds, so \<open>balance_dataset\<close> is defined for every
  input, and a run has at most \<open>max_iterations\<close> rounds: at most \<open>max_iterations + 1\<close>
  iteration boundaries, the result being read from the last one. With
  \<open>max_iterations = 0\<close> no round is run, nothing is recorded, and the result is the empty
  selection.
\<close>

theorem balance_terminates:
  "length (balance_states tf max_iterations ord sentences) \<le> Suc max_iterations \<and>
   final_state tf max_iterations ord sentences =
     last (balance_states tf max_iterations ord sentences) \<and>
   balance_dataset tf max_iterations ord sentences =
     map (\<lambda>idx. sentences ! idx)
       (sorted_list_of_set (best_selected (last (balance_states tf max_iterations ord sentences)))) \<and>
   balance_states tf 0 ord sentences = [initial_state ord sentences] \<and>
   best_selected (final_state tf 0 ord sentences) = {} \<and>
   best_score (final_state tf 0 ord sentences) = None \<and>
   balance_dataset tf 0 ord sentences = []"
proof (intro conjI)
  show "length (balance_states tf max_iterations ord sentences) \<le> Suc max_iterations"
    by (simp add: balance_states_def length_balance_trace)
  show "final_state tf max_iterations ord sentences =
     last (balance_states tf max_iterations ord sentences)"
    by (rule final_state_last)
  show "balance_dataset tf max_iterations ord sentences =
     map (\<lambda>idx. sentences ! idx)
       (sorted_list_of_set (best_selected (last (balance_states tf max_iterations ord sentences))))"
    by (simp only: balance_dataset_def final_state_last)
  show "balance_states tf 0 ord sentences = [initial_state ord sentences]"
    by (simp add: balance_states_def)
  show "best_selected (final_state tf 0 ord sentences) = {}"
    by (simp add: final_state_def initial_state_def Let_def)
  show "best_score (final_state tf 0 ord sentences) = None"
    by (simp add: final_state_def initial_state_def Let_def)
  show "balance_dataset tf 0 ord sentences = []"
    by (simp add: balance_dataset_def final_state_def initial_state_def Let_def)
qed

theorem balance_terminates_witness:
  "length (balance_states [(''A'', 1)] 50 ascending
      [[(''x'', ''A'')], [(''y'', ''A'')], [(''z'', ''A'')]]) = 3 \<and>
   length (balance_states [(''A'', 1)] 1 ascending
      [[(''x'', ''A'')], [(''y'', ''A'')], [(''z'', ''A'')]]) = 2 \<and>
   balance_dataset [(''A'', 1)] 50 ascending
      [[(''x'', ''A'')], [(''y'', ''A'')], [(''z'', ''A'')]] = [[(''z'', ''A'')]] \<and>
   balance_dataset [(''A'', 1)] 0 ascending
      [[(''x'', ''A'')], [(''y'', ''A'')], [(''z'', ''A'')]] = []"
proof -
  have 1: "length (balance_states [(''A'', 1)] 50 ascending
      [[(''x'', ''A'')], [(''y'', ''A'')], [(''z'', ''A'')]]) = 3"
    by code_simp
  have 2: "length (balance_states [(''A'', 1)] 1 ascending
      [[(''x'', ''A'')], [(''y'', ''A'')], [(''z'', ''A'')]]) = 2"
    by code_simp
  have 3: "balance_dataset [(''A'', 1)] 50 ascending
      [[(''x'', ''A'')], [(''y'', ''A'')], [(''z'', ''A'')]] = [[(''z'', ''A'')]]"
    by code_simp
  show ?thesis
    using 1 2 3 balance_terminates[of "[(''A'', 1)]" 1 ascending
      "[[(''x'', ''A'')], [(''y'', ''A'')], [(''z'', ''A'')]]"]
    by simp
qed


section \<open>The best score\<close>

lemma iteration_best:
  assumes "iteration tf stc n ord i st = (st', imp)"
  shows "(best_score st < Some (calculate_frequency_score tf (current_counts st')) \<and>
          best_score st' = Some (calculate_frequency_score tf (current_counts st')) \<and>
          best_selected st' = selected st') \<or>
         (\<not> best_score st < Some (calculate_frequency_score tf (current_counts st')) \<and>
          best_score st' = best_score st \<and> best_selected st' = best_selected st)"
  using assms
  by (auto simp: iteration_def Let_def split: prod.splits if_splits)

lemma iteration_best_mono:
  assumes "iteration tf stc n ord i st = (st', imp)"
  shows "best_score st \<le> best_score st'"
  using iteration_best[OF assms] by auto

lemma balance_trace_mono:
  "sorted_wrt (\<lambda>a b. best_score a \<le> best_score b) (st # balance_trace tf stc n ord i k st)"
proof (induction k arbitrary: i st)
  case 0
  show ?case by simp
next
  case (Suc k)
  obtain st1 imp where it: "iteration tf stc n ord i st = (st1, imp)"
    by (cases "iteration tf stc n ord i st")
  have le: "best_score st \<le> best_score st1" using it by (rule iteration_best_mono)
  have IH: "sorted_wrt (\<lambda>a b. best_score a \<le> best_score b)
              (st1 # balance_trace tf stc n ord (Suc i) k st1)"
    by (rule Suc.IH)
  then have "\<forall>b\<in>set (balance_trace tf stc n ord (Suc i) k st1). best_score st1 \<le> best_score b"
    by simp
  then have "\<forall>b\<in>set (st1 # balance_trace tf stc n ord (Suc i) k st1). best_score st \<le> best_score b"
    using le by auto
  then show ?case using IH it by (cases imp) auto
qed

lemma recorded_mono: "recorded tf S st \<Longrightarrow> S \<subseteq> T \<Longrightarrow> recorded tf T st"
  unfolding recorded_def by blast

lemma iteration_recorded:
  assumes "iteration tf stc n ord i st = (st', imp)"
    and "best_score st = None \<or> recorded tf S st"
  shows "recorded tf (insert st' S) st'"
  using iteration_best[OF assms(1)]
proof
  assume "best_score st < Some (calculate_frequency_score tf (current_counts st')) \<and>
          best_score st' = Some (calculate_frequency_score tf (current_counts st')) \<and>
          best_selected st' = selected st'"
  then show ?thesis unfolding recorded_def by blast
next
  assume a: "\<not> best_score st < Some (calculate_frequency_score tf (current_counts st')) \<and>
          best_score st' = best_score st \<and> best_selected st' = best_selected st"
  then have "best_score st \<noteq> None" by (cases "best_score st") auto
  with assms(2) have "recorded tf S st" by simp
  then show ?thesis using a unfolding recorded_def by auto
qed

lemma balance_trace_recorded:
  assumes "best_score st = None \<or> recorded tf S st" "0 < k"
  shows "recorded tf (S \<union> set (balance_trace tf stc n ord i k st))
           (last (balance_trace tf stc n ord i k st))"
  using assms
proof (induction k arbitrary: i st S)
  case 0
  then show ?case by simp
next
  case (Suc k)
  obtain st1 imp where it: "iteration tf stc n ord i st = (st1, imp)"
    by (cases "iteration tf stc n ord i st")
  have r1: "recorded tf (insert st1 S) st1"
    using it Suc.prems(1) by (rule iteration_recorded)
  show ?case
  proof (cases "imp \<and> 0 < k")
    case True
    have "recorded tf (insert st1 S \<union> set (balance_trace tf stc n ord (Suc i) k st1))
            (last (balance_trace tf stc n ord (Suc i) k st1))"
      using r1 True by (intro Suc.IH) simp_all
    moreover have "balance_trace tf stc n ord (Suc i) k st1 \<noteq> []"
      using True by (simp add: balance_trace_nonempty)
    ultimately show ?thesis using it True by simp
  next
    case False
    then have "balance_trace tf stc n ord i (Suc k) st = [st1]"
      using it by (cases imp) auto
    then show ?thesis using r1 by (simp add: insert_commute)
  qed
qed

lemma score_cong:
  assumes "\<And>tag. dd_get cc tag = dd_get cc' tag"
  shows "calculate_frequency_score tf cc = calculate_frequency_score tf cc'"
  unfolding calculate_frequency_score_def using assms by simp


lemma final_recorded:
  assumes "0 < max_iterations"
  shows "\<exists>k. 0 < k \<and> k < length (balance_states tf max_iterations ord sentences) \<and>
          best_selected (final_state tf max_iterations ord sentences) =
            selected (balance_states tf max_iterations ord sentences ! k) \<and>
          best_score (final_state tf max_iterations ord sentences) =
            Some (calculate_frequency_score tf
                    (current_counts (balance_states tf max_iterations ord sentences ! k)))"
proof -
  let ?init = "initial_state ord sentences"
  let ?T = "balance_trace tf (map get_sentence_tag_counts sentences) (length sentences) ord
              0 max_iterations ?init"
  have ne: "?T \<noteq> []" using assms by (rule balance_trace_nonempty)
  have fin: "final_state tf max_iterations ord sentences = last ?T"
    using ne by (simp add: final_state_last balance_states_def)
  have "best_score ?init = None" by (simp add: initial_state_def Let_def)
  then have "recorded tf ({} \<union> set ?T) (last ?T)"
    using assms by (intro balance_trace_recorded) simp_all
  then obtain s where s: "s \<in> set ?T" "best_selected (last ?T) = selected s"
      "best_score (last ?T) = Some (calculate_frequency_score tf (current_counts s))"
    unfolding recorded_def by auto
  from s(1) obtain j where j: "j < length ?T" "?T ! j = s"
    by (auto simp: in_set_conv_nth)
  have "balance_states tf max_iterations ord sentences ! Suc j = s"
    using j by (simp add: balance_states_def)
  moreover have "Suc j < length (balance_states tf max_iterations ord sentences)"
    using j by (simp add: balance_states_def)
  ultimately show ?thesis using s(2,3) fin by (intro exI[of _ "Suc j"]) simp
qed

lemma state_score_recomputed:
  assumes "k < length (balance_states tf max_iterations ord sentences)"
  shows "calculate_frequency_score tf
           (current_counts (balance_states tf max_iterations ord sentences ! k)) =
         calculate_frequency_score tf
           (get_current_counts perm sentences
              (selected (balance_states tf max_iterations ord sentences ! k))
              (map get_sentence_tag_counts sentences))"
proof (rule score_cong)
  fix tag
  let ?stc = "map get_sentence_tag_counts sentences"
  let ?st = "balance_states tf max_iterations ord sentences ! k"
  have "?st \<in> set (balance_states tf max_iterations ord sentences)"
    using assms by simp
  then have ok: "state_ok ?stc (length sentences) ?st" by (rule balance_states_ok)
  then have sub: "selected ?st \<subseteq> {0..<length sentences}"
    and c: "counts_ok ?stc (selected ?st) (current_counts ?st)"
    by (simp_all add: state_ok_def)
  have fin: "finite (selected ?st)" using sub by (rule finite_subset) simp
  have "dd_get (get_current_counts perm sentences (selected ?st) ?stc) tag =
           (\<Sum>idx\<in>selected ?st. count_of (?stc ! idx) tag)"
    using fin sub by (intro get_current_counts_sum) (auto simp: distinct_get_sentence_tag_counts)
  then show "dd_get (current_counts ?st) tag =
             dd_get (get_current_counts perm sentences (selected ?st) ?stc) tag"
    using c by (simp add: counts_ok_def)
qed

text \<open>
  Claim C4 (monotonic best score), amended. Along the iteration boundaries of a run
  \<open>best_score\<close> never decreases, and the result lists \<open>best_selected\<close> of the final state
  in ascending index order. When at least one round is run (\<open>0 < max_iterations\<close>), the
  final \<open>best_selected\<close> and \<open>best_score\<close> were recorded at the end of some round \<open>k\<close>, as
  the selection of that moment and the score of its aggregate, and the final
  \<open>best_score\<close> is the score of the counts recomputed over the final \<open>best_selected\<close>.
\<close>

theorem best_score_monotonic:
  "(\<forall>i j. i \<le> j \<and> j < length (balance_states tf max_iterations ord sentences) \<longrightarrow>
      best_score (balance_states tf max_iterations ord sentences ! i) \<le>
      best_score (balance_states tf max_iterations ord sentences ! j)) \<and>
   balance_dataset tf max_iterations ord sentences =
     map (\<lambda>idx. sentences ! idx)
       (sorted_list_of_set (best_selected (final_state tf max_iterations ord sentences))) \<and>
   (0 < max_iterations \<longrightarrow>
      (\<exists>k. 0 < k \<and> k < length (balance_states tf max_iterations ord sentences) \<and>
          best_selected (final_state tf max_iterations ord sentences) =
            selected (balance_states tf max_iterations ord sentences ! k) \<and>
          best_score (final_state tf max_iterations ord sentences) =
            Some (calculate_frequency_score tf
                    (current_counts (balance_states tf max_iterations ord sentences ! k)))) \<and>
      best_score (final_state tf max_iterations ord sentences) =
        Some (calculate_frequency_score tf
                (get_current_counts perm sentences
                   (best_selected (final_state tf max_iterations ord sentences))
                   (map get_sentence_tag_counts sentences))))"
proof (intro conjI impI allI)
  fix i j
  assume ij: "i \<le> j \<and> j < length (balance_states tf max_iterations ord sentences)"
  let ?xs = "balance_states tf max_iterations ord sentences"
  have sw: "sorted_wrt (\<lambda>a b. best_score a \<le> best_score b) ?xs"
    unfolding balance_states_def by (rule balance_trace_mono)
  show "best_score (?xs ! i) \<le> best_score (?xs ! j)"
  proof (cases "i = j")
    case True
    then show ?thesis by simp
  next
    case False
    then have "i < j" using ij by simp
    then show ?thesis using sw ij by (simp add: sorted_wrt_iff_nth_less)
  qed
next
  show "balance_dataset tf max_iterations ord sentences =
     map (\<lambda>idx. sentences ! idx)
       (sorted_list_of_set (best_selected (final_state tf max_iterations ord sentences)))"
    by (simp add: balance_dataset_def)
next
  assume "0 < max_iterations"
  then show "\<exists>k. 0 < k \<and> k < length (balance_states tf max_iterations ord sentences) \<and>
          best_selected (final_state tf max_iterations ord sentences) =
            selected (balance_states tf max_iterations ord sentences ! k) \<and>
          best_score (final_state tf max_iterations ord sentences) =
            Some (calculate_frequency_score tf
                    (current_counts (balance_states tf max_iterations ord sentences ! k)))"
    by (rule final_recorded)
next
  assume pos: "0 < max_iterations"
  from final_recorded[OF pos, of tf ord sentences]
  obtain k where k: "k < length (balance_states tf max_iterations ord sentences)"
    "best_selected (final_state tf max_iterations ord sentences) =
            selected (balance_states tf max_iterations ord sentences ! k)"
    "best_score (final_state tf max_iterations ord sentences) =
            Some (calculate_frequency_score tf
                    (current_counts (balance_states tf max_iterations ord sentences ! k)))"
    by blast
  show "best_score (final_state tf max_iterations ord sentences) =
        Some (calculate_frequency_score tf
                (get_current_counts perm sentences
                   (best_selected (final_state tf max_iterations ord sentences))
                   (map get_sentence_tag_counts sentences)))"
    using k(2,3) state_score_recomputed[OF k(1), of perm] by simp
qed

theorem best_score_monotonic_witness:
  "(0::nat) < 50 \<and>
   best_score (balance_states [(''A'', 1)] 50 ascending
      [[(''x'', ''A'')], [(''y'', ''A'')], [(''z'', ''A'')]] ! 0) \<le>
   best_score (balance_states [(''A'', 1)] 50 ascending
      [[(''x'', ''A'')], [(''y'', ''A'')], [(''z'', ''A'')]] ! 1) \<and>
   best_score (final_state [(''A'', 1)] 50 ascending
      [[(''x'', ''A'')], [(''y'', ''A'')], [(''z'', ''A'')]]) =
     Some (calculate_frequency_score [(''A'', 1)]
             (get_current_counts rev [[(''x'', ''A'')], [(''y'', ''A'')], [(''z'', ''A'')]]
                (best_selected (final_state [(''A'', 1)] 50 ascending
                   [[(''x'', ''A'')], [(''y'', ''A'')], [(''z'', ''A'')]]))
                (map get_sentence_tag_counts
                   [[(''x'', ''A'')], [(''y'', ''A'')], [(''z'', ''A'')]])))"
proof -
  have len: "(0::nat) \<le> 1 \<and> 1 < length (balance_states [(''A'', 1)] 50 ascending
      [[(''x'', ''A'')], [(''y'', ''A'')], [(''z'', ''A'')]])"
    by code_simp
  have pos: "(0::nat) < 50" by simp
  show ?thesis
    using len pos
      best_score_monotonic[of "[(''A'', 1)]" 50 ascending
        "[[(''x'', ''A'')], [(''y'', ''A'')], [(''z'', ''A'')]]" rev]
    by blast
qed

text \<open>
  The claim as stated fails with \<open>max_iterations = 0\<close>: nothing is recorded, the result
  is empty, \<open>best_score\<close> is still \<open>float('-inf')\<close>, and the score of the empty selection
  is \<open>-1\<close>.
\<close>

theorem best_score_zero_iterations_counterexample:
  "balance_dataset [(''B-PER'', 1)] 0 ascending [[(''Ann'', ''B-PER'')]] = [] \<and>
   best_score (final_state [(''B-PER'', 1)] 0 ascending [[(''Ann'', ''B-PER'')]]) = None \<and>
   calculate_frequency_score [(''B-PER'', 1)]
     (get_current_counts (\<lambda>xs. xs) [[(''Ann'', ''B-PER'')]]
        (best_selected (final_state [(''B-PER'', 1)] 0 ascending [[(''Ann'', ''B-PER'')]]))
        (map get_sentence_tag_counts [[(''Ann'', ''B-PER'')]])) = - 1 \<and>
   best_score (final_state [(''B-PER'', 1)] 0 ascending [[(''Ann'', ''B-PER'')]]) \<noteq>
     Some (calculate_frequency_score [(''B-PER'', 1)]
       (get_current_counts (\<lambda>xs. xs) [[(''Ann'', ''B-PER'')]]
          (best_selected (final_state [(''B-PER'', 1)] 0 ascending [[(''Ann'', ''B-PER'')]]))
          (map get_sentence_tag_counts [[(''Ann'', ''B-PER'')]])))"
  by code_simp

section \<open>Sentences without target labels\<close>

lemma fold_remove_step_mono:
  assumes "fold (remove_step tf stc) xs (sel, cc, imp) = (sel', cc', imp')"
  shows "sel' \<subseteq> sel \<and> (imp \<longrightarrow> imp')"
  using assms
proof (induction xs arbitrary: sel cc imp)
  case Nil
  then show ?case by simp
next
  case (Cons x xs)
  from remove_step_cases[of tf stc x sel cc imp]
  show ?case
  proof
    assume "remove_step tf stc x (sel, cc, imp) = (sel, cc, imp)"
    then show ?thesis using Cons.IH[of sel cc imp] Cons.prems by simp
  next
    assume "remove_step tf stc x (sel, cc, imp) = (sel - {x}, sub_counts (stc ! x) cc, True)"
    then show ?thesis
      using Cons.IH[of "sel - {x}" "sub_counts (stc ! x) cc" True] Cons.prems by auto
  qed
qed

lemma fold_add_step_mono:
  assumes "fold (add_step tf stc) xs (sel, cc, imp) = (sel', cc', imp')"
  shows "sel \<subseteq> sel' \<and> (imp \<longrightarrow> imp')"
  using assms
proof (induction xs arbitrary: sel cc imp)
  case Nil
  then show ?case by simp
next
  case (Cons x xs)
  from add_step_cases[of tf stc x sel cc imp]
  show ?case
  proof
    assume "add_step tf stc x (sel, cc, imp) = (sel, cc, imp)"
    then show ?thesis using Cons.IH[of sel cc imp] Cons.prems by simp
  next
    assume "add_step tf stc x (sel, cc, imp) = (insert x sel, add_counts (stc ! x) cc, True)"
    then show ?thesis
      using Cons.IH[of "insert x sel" "add_counts (stc ! x) cc" True] Cons.prems by auto
  qed
qed

lemma fold_remove_step_always:
  assumes "j \<in> set xs" "\<And>cc. should_remove_sentence tf j (stc ! j) cc"
    and "fold (remove_step tf stc) xs (sel, cc, imp) = (sel', cc', imp')"
  shows "j \<notin> sel' \<and> imp'"
  using assms(1,3)
proof (induction xs arbitrary: sel cc imp)
  case Nil
  then show ?case by simp
next
  case (Cons x xs)
  show ?case
  proof (cases "x = j")
    case True
    have "remove_step tf stc x (sel, cc, imp) = (sel - {j}, sub_counts (stc ! j) cc, True)"
      using True assms(2) by (simp add: remove_step_def)
    then have "fold (remove_step tf stc) xs (sel - {j}, sub_counts (stc ! j) cc, True) =
               (sel', cc', imp')"
      using Cons.prems(2) by simp
    from fold_remove_step_mono[OF this] show ?thesis by auto
  next
    case False
    then have j: "j \<in> set xs" using Cons.prems(1) by simp
    obtain s1 c1 i1 where st: "remove_step tf stc x (sel, cc, imp) = (s1, c1, i1)"
      by (cases "remove_step tf stc x (sel, cc, imp)")
    show ?thesis using Cons.IH[OF j, of s1 c1 i1] Cons.prems(2) st by simp
  qed
qed

lemma fold_add_step_always:
  assumes "j \<in> set xs" "\<And>cc. can_add tf (stc ! j) cc"
    and "fold (add_step tf stc) xs (sel, cc, imp) = (sel', cc', imp')"
  shows "j \<in> sel' \<and> imp'"
  using assms(1,3)
proof (induction xs arbitrary: sel cc imp)
  case Nil
  then show ?case by simp
next
  case (Cons x xs)
  show ?case
  proof (cases "x = j")
    case True
    have "add_step tf stc x (sel, cc, imp) = (insert j sel, add_counts (stc ! j) cc, True)"
      using True assms(2) by (simp add: add_step_def)
    then have "fold (add_step tf stc) xs (insert j sel, add_counts (stc ! j) cc, True) =
               (sel', cc', imp')"
      using Cons.prems(2) by simp
    from fold_add_step_mono[OF this] show ?thesis by auto
  next
    case False
    then have j: "j \<in> set xs" using Cons.prems(1) by simp
    obtain s1 c1 i1 where st: "add_step tf stc x (sel, cc, imp) = (s1, c1, i1)"
      by (cases "add_step tf stc x (sel, cc, imp)")
    show ?thesis using Cons.IH[OF j, of s1 c1 i1] Cons.prems(2) st by simp
  qed
qed

lemma no_target_should_remove:
  "\<forall>(tag, count) \<in> set sc. map_of tf tag = None \<Longrightarrow> should_remove_sentence tf idx sc cc"
  unfolding should_remove_sentence_iff by fastforce

lemma no_target_can_add:
  "\<forall>(tag, count) \<in> set sc. map_of tf tag = None \<Longrightarrow> can_add tf sc cc"
  unfolding can_add_iff by fastforce

lemma iteration_churn:
  assumes "j < n" "j \<in> selected st" "selected st \<subseteq> {0..<n}"
    and "\<forall>(tag, count) \<in> set (stc ! j). map_of tf tag = None"
  shows "j \<notin> fst (removal_pass tf stc ord i (selected st, current_counts st, False)) \<and>
         j \<in> fst (addition_pass tf stc n ord i
                   (removal_pass tf stc ord i (selected st, current_counts st, False))) \<and>
         snd (iteration tf stc n ord i st) \<and>
         j \<in> selected (fst (iteration tf stc n ord i st))"
proof -
  have fin: "finite (selected st)" using assms(3) by (rule finite_subset) simp
  obtain sel1 cc1 imp1 where r:
    "removal_pass tf stc ord i (selected st, current_counts st, False) = (sel1, cc1, imp1)"
    by (cases "removal_pass tf stc ord i (selected st, current_counts st, False)")
  have "j \<in> set (py_list (ord (Removal i)) (selected st))"
    using fin assms(2) by (simp add: py_list_set)
  then have 1: "j \<notin> sel1 \<and> imp1"
    using r no_target_should_remove[OF assms(4)]
    by (intro fold_remove_step_always[where j=j and tf=tf and stc=stc])
       (auto simp: removal_pass_def)
  obtain sel2 cc2 imp2 where a:
    "addition_pass tf stc n ord i (sel1, cc1, imp1) = (sel2, cc2, imp2)"
    by (cases "addition_pass tf stc n ord i (sel1, cc1, imp1)")
  have "j \<in> set (py_list (ord (Addition i)) ({0..<n} - sel1))"
    using 1 assms(1) by (simp add: py_list_set)
  then have 2: "j \<in> sel2 \<and> imp2"
    using a no_target_can_add[OF assms(4)]
    by (intro fold_add_step_always[where j=j and tf=tf and stc=stc])
       (auto simp: addition_pass_def Let_def)
  obtain st' imp where it: "iteration tf stc n ord i st = (st', imp)"
    by (cases "iteration tf stc n ord i st")
  from iteration_selected[OF it] r a have "sel2 = selected st'" "imp2 = imp" by simp_all
  then show ?thesis using 1 2 r a it by simp
qed


lemma balance_trace_step:
  "k < length (balance_trace tf stc n ord i m st) \<Longrightarrow>
   fst (iteration tf stc n ord (i + k) ((st # balance_trace tf stc n ord i m st) ! k)) =
   balance_trace tf stc n ord i m st ! k"
proof (induction m arbitrary: i st k)
  case 0
  then show ?case by simp
next
  case (Suc m)
  obtain st1 imp where it: "iteration tf stc n ord i st = (st1, imp)"
    by (cases "iteration tf stc n ord i st")
  show ?case
  proof (cases k)
    case 0
    then show ?thesis using it by simp
  next
    case (Suc k')
    have T: "balance_trace tf stc n ord i (Suc m) st =
             st1 # (if \<not> imp then [] else balance_trace tf stc n ord (Suc i) m st1)"
      using it by simp
    have imp: "imp" using Suc.prems Suc T by (cases imp) auto
    then have T': "balance_trace tf stc n ord i (Suc m) st =
                   st1 # balance_trace tf stc n ord (Suc i) m st1"
      using T by simp
    have k': "k' < length (balance_trace tf stc n ord (Suc i) m st1)"
      using Suc.prems Suc T' by simp
    show ?thesis using Suc.IH[OF k'] Suc T' by simp
  qed
qed

lemma balance_trace_churn:
  assumes "\<forall>idx<n. distinct (map fst (stc ! idx))" "j < n"
    and "\<forall>(tag, count) \<in> set (stc ! j). map_of tf tag = None"
    and "state_ok stc n st" "j \<in> selected st"
  shows "length (balance_trace tf stc n ord i k st) = k \<and>
         (\<forall>st'\<in>set (balance_trace tf stc n ord i k st). j \<in> selected st')"
  using assms(4,5)
proof (induction k arbitrary: i st)
  case 0
  show ?case by simp
next
  case (Suc k)
  obtain st1 imp where it: "iteration tf stc n ord i st = (st1, imp)"
    by (cases "iteration tf stc n ord i st")
  have sub: "selected st \<subseteq> {0..<n}" using Suc.prems(1) by (simp add: state_ok_def)
  from iteration_churn[OF assms(2) Suc.prems(2) sub assms(3), of ord i] it
  have imp: "imp" and j1: "j \<in> selected st1" by simp_all
  have ok1: "state_ok stc n st1" using assms(1) Suc.prems(1) it by (rule iteration_ok)
  show ?case using Suc.IH[OF ok1 j1, of "Suc i"] it imp j1 by simp
qed

text \<open>
  Claim C10 (churn), amended. Let sentence \<open>j\<close> of the corpus have no target label among
  its counted labels (as when all its tags are \<open>O\<close>). Then every round is run: the run
  has exactly \<open>max_iterations\<close> rounds. In each round \<open>k\<close> the sentence is selected at the
  start, is removed by the removal pass and added again by the addition pass, and the
  round ends with \<open>improved\<close> set, so the early exit is never taken. The sentence is
  selected at every iteration boundary, and when at least one round is run it is in
  \<open>best_selected\<close> and in the result.
\<close>

theorem untargeted_sentence_churn:
  assumes "j < length sentences"
    and "\<forall>(tag, count) \<in> set (get_sentence_tag_counts (sentences ! j)). map_of tf tag = None"
  shows "length (balance_states tf max_iterations ord sentences) = Suc max_iterations \<and>
    (\<forall>k<max_iterations.
       (let st = balance_states tf max_iterations ord sentences ! k;
            stc = map get_sentence_tag_counts sentences;
            r = removal_pass tf stc ord k (selected st, current_counts st, False);
            a = addition_pass tf stc (length sentences) ord k r
        in j \<in> selected st \<and> j \<notin> fst r \<and> j \<in> fst a \<and>
           iteration tf stc (length sentences) ord k st =
             (balance_states tf max_iterations ord sentences ! Suc k, True))) \<and>
    j \<in> selected (final_state tf max_iterations ord sentences) \<and>
    (0 < max_iterations \<longrightarrow>
       j \<in> best_selected (final_state tf max_iterations ord sentences) \<and>
       sentences ! j \<in> set (balance_dataset tf max_iterations ord sentences))"
proof -
  let ?stc = "map get_sentence_tag_counts sentences"
  let ?n = "length sentences"
  let ?init = "initial_state ord sentences"
  let ?T = "balance_trace tf ?stc ?n ord 0 max_iterations ?init"
  let ?S = "balance_states tf max_iterations ord sentences"
  have S: "?S = ?init # ?T" by (simp add: balance_states_def)
  have nt: "\<forall>(tag, count) \<in> set (?stc ! j). map_of tf tag = None"
    using assms by simp
  have j0: "j \<in> selected ?init" using assms(1) by (simp add: initial_state_def Let_def)
  have tr: "length ?T = max_iterations \<and> (\<forall>st'\<in>set ?T. j \<in> selected st')"
    using wf_sentence_tag_counts assms(1) nt initial_state_ok j0
    by (rule balance_trace_churn)
  have len: "length ?S = Suc max_iterations" using tr S by simp
  have all: "\<forall>st\<in>set ?S. j \<in> selected st" using tr j0 S by simp
  have ok: "\<forall>st\<in>set ?S. state_ok ?stc ?n st" using balance_states_ok by blast
  have fin_in: "final_state tf max_iterations ord sentences \<in> set ?S"
    unfolding final_state_last using S by simp
  have step: "\<forall>k<max_iterations.
       (let st = ?S ! k;
            stc = ?stc;
            r = removal_pass tf stc ord k (selected st, current_counts st, False);
            a = addition_pass tf stc ?n ord k r
        in j \<in> selected st \<and> j \<notin> fst r \<and> j \<in> fst a \<and>
           iteration tf stc ?n ord k st = (?S ! Suc k, True))"
  proof (intro allI impI)
    fix k assume k: "k < max_iterations"
    let ?st = "?S ! k"
    have mem: "?st \<in> set ?S" using k len by simp
    have jk: "j \<in> selected ?st" using all mem by blast
    have sub: "selected ?st \<subseteq> {0..<?n}" using ok mem by (auto simp: state_ok_def)
    note ch = iteration_churn[OF assms(1) jk sub nt, of ord k]
    have "fst (iteration tf ?stc ?n ord (0 + k) ((?init # ?T) ! k)) = ?T ! k"
      using k tr by (intro balance_trace_step) simp
    then have "fst (iteration tf ?stc ?n ord k ?st) = ?S ! Suc k"
      using S by simp
    then have "iteration tf ?stc ?n ord k ?st = (?S ! Suc k, True)"
      using ch by (cases "iteration tf ?stc ?n ord k ?st") simp
    then show "let st = ?S ! k;
            stc = ?stc;
            r = removal_pass tf stc ord k (selected st, current_counts st, False);
            a = addition_pass tf stc ?n ord k r
        in j \<in> selected st \<and> j \<notin> fst r \<and> j \<in> fst a \<and>
           iteration tf stc ?n ord k st = (?S ! Suc k, True)"
      using ch jk by (simp add: Let_def)
  qed
  have best: "0 < max_iterations \<longrightarrow>
       j \<in> best_selected (final_state tf max_iterations ord sentences) \<and>
       sentences ! j \<in> set (balance_dataset tf max_iterations ord sentences)"
  proof
    assume pos: "0 < max_iterations"
    from final_recorded[OF pos, of tf ord sentences]
    obtain k where k: "k < length ?S"
      "best_selected (final_state tf max_iterations ord sentences) = selected (?S ! k)"
      by blast
    have mem: "?S ! k \<in> set ?S" using k(1) by simp
    have jb: "j \<in> best_selected (final_state tf max_iterations ord sentences)"
      using all mem k(2) by auto
    have "best_selected (final_state tf max_iterations ord sentences) \<subseteq> {0..<?n}"
      using ok mem k(2) by (auto simp: state_ok_def)
    then have "finite (best_selected (final_state tf max_iterations ord sentences))"
      by (rule finite_subset) simp
    then have "j \<in> set (sorted_list_of_set
                 (best_selected (final_state tf max_iterations ord sentences)))"
      using jb by simp
    then have "sentences ! j \<in> set (balance_dataset tf max_iterations ord sentences)"
      unfolding balance_dataset_def by (simp add: image_iff) blast
    then show "j \<in> best_selected (final_state tf max_iterations ord sentences) \<and>
       sentences ! j \<in> set (balance_dataset tf max_iterations ord sentences)"
      using jb by simp
  qed
  show ?thesis using len step all fin_in best by blast
qed


theorem untargeted_sentence_churn_witness:
  "(1::nat) < length [[(''Ann'', ''B-PER'')], [(''the'', ''O'')]] \<and>
   get_sentence_tag_counts ([[(''Ann'', ''B-PER'')], [(''the'', ''O'')]] ! 1) = [] \<and>
   length (balance_states [(''B-PER'', 1)] 3 ascending
             [[(''Ann'', ''B-PER'')], [(''the'', ''O'')]]) = 4 \<and>
   1 \<in> selected (final_state [(''B-PER'', 1)] 3 ascending
             [[(''Ann'', ''B-PER'')], [(''the'', ''O'')]]) \<and>
   [(''the'', ''O'')] \<in> set (balance_dataset [(''B-PER'', 1)] 3 ascending
             [[(''Ann'', ''B-PER'')], [(''the'', ''O'')]])"
proof -
  have h1: "(1::nat) < length [[(''Ann'', ''B-PER'')], [(''the'', ''O'')]]" by simp
  have e: "get_sentence_tag_counts ([[(''Ann'', ''B-PER'')], [(''the'', ''O'')]] ! 1) = []"
    by (simp add: get_sentence_tag_counts_def)
  have h2: "\<forall>(tag, count) \<in> set (get_sentence_tag_counts
               ([[(''Ann'', ''B-PER'')], [(''the'', ''O'')]] ! 1)).
             map_of [(''B-PER'', 1::int)] tag = None"
    by (simp only: e) simp
  show ?thesis
    using h1 e untargeted_sentence_churn[OF h1 h2, of 3 ascending]
    by simp
qed

text \<open>
  The claim as stated fails with \<open>max_iterations = 0\<close>: the result is empty, so a sentence
  without target labels is not in it.
\<close>

theorem untargeted_sentence_zero_iterations_counterexample:
  "get_sentence_tag_counts ([[(''Ann'', ''B-PER'')], [(''the'', ''O'')]] ! 1) = [] \<and>
   balance_dataset [(''B-PER'', 1)] 0 ascending
     [[(''Ann'', ''B-PER'')], [(''the'', ''O'')]] = [] \<and>
   [(''the'', ''O'')] \<notin> set (balance_dataset [(''B-PER'', 1)] 0 ascending
     [[(''Ann'', ''B-PER'')], [(''the'', ''O'')]])"
  by code_simp

section \<open>The end-to-end example\<close>

lemma py_list_empty: "py_list perm {} = []"
proof -
  have "sort (perm []) = [] \<Longrightarrow> perm [] = []"
    by (metis length_0_conv length_sort)
  then show ?thesis by (auto simp: py_list_def Let_def)
qed

lemma fold_remove_step_none:
  assumes "\<forall>idx\<in>set xs. \<not> should_remove_sentence tf idx (stc ! idx) cc"
  shows "fold (remove_step tf stc) xs (sel, cc, imp) = (sel, cc, imp)"
  using assms by (induction xs) (simp_all add: remove_step_def)

lemma fold_add_step_none:
  assumes "\<forall>idx\<in>set xs. \<not> can_add tf (stc ! idx) cc"
  shows "fold (add_step tf stc) xs (sel, cc, imp) = (sel, cc, imp)"
  using assms by (induction xs) (simp_all add: add_step_def)


lemma example_counts:
  assumes "counts_ok [[(''B-PER'', 1)], [(''B-LOC'', 1), (''I-LOC'', 1)]] {0..<2} cc"
  shows "dd_get cc ''B-PER'' = 1" "dd_get cc ''B-LOC'' = 1" "dd_get cc ''I-LOC'' = 1"
proof -
  have s: "{0..<2::nat} = {0, 1}" by auto
  show "dd_get cc ''B-PER'' = 1" "dd_get cc ''B-LOC'' = 1" "dd_get cc ''I-LOC'' = 1"
    using assms by (simp_all add: counts_ok_def s count_of_def)
qed

text \<open>
  Claim C8 (end-to-end example). For the corpus of two sentences with labels
  \<open>["B-PER", "O", "O"]\<close> and \<open>["B-LOC", "I-LOC", "O"]\<close> (any tokens) and the targets
  \<open>{"B-PER": 1, "B-LOC": 1, "I-LOC": 1}\<close>, a run with at least one round (the default is
  50), in whatever order the sets are walked, returns both sentences in their original
  order; the best score is 0, and so is the score of the counts recomputed over the
  returned selection.
\<close>

theorem end_to_end_example:
  assumes "0 < max_iterations"
  shows "balance_dataset [(''B-PER'', 1), (''B-LOC'', 1), (''I-LOC'', 1)] max_iterations ord
           [[(w1, ''B-PER''), (w2, ''O''), (w3, ''O'')],
            [(w4, ''B-LOC''), (w5, ''I-LOC''), (w6, ''O'')]] =
           [[(w1, ''B-PER''), (w2, ''O''), (w3, ''O'')],
            [(w4, ''B-LOC''), (w5, ''I-LOC''), (w6, ''O'')]] \<and>
         best_score (final_state [(''B-PER'', 1), (''B-LOC'', 1), (''I-LOC'', 1)] max_iterations ord
           [[(w1, ''B-PER''), (w2, ''O''), (w3, ''O'')],
            [(w4, ''B-LOC''), (w5, ''I-LOC''), (w6, ''O'')]]) = Some 0 \<and>
         calculate_frequency_score [(''B-PER'', 1), (''B-LOC'', 1), (''I-LOC'', 1)]
           (get_current_counts perm
              [[(w1, ''B-PER''), (w2, ''O''), (w3, ''O'')],
               [(w4, ''B-LOC''), (w5, ''I-LOC''), (w6, ''O'')]]
              (best_selected (final_state [(''B-PER'', 1), (''B-LOC'', 1), (''I-LOC'', 1)]
                 max_iterations ord
                 [[(w1, ''B-PER''), (w2, ''O''), (w3, ''O'')],
                  [(w4, ''B-LOC''), (w5, ''I-LOC''), (w6, ''O'')]]))
              (map get_sentence_tag_counts
                 [[(w1, ''B-PER''), (w2, ''O''), (w3, ''O'')],
                  [(w4, ''B-LOC''), (w5, ''I-LOC''), (w6, ''O'')]])) = 0"
proof -
  let ?tf = "[(''B-PER'', 1::int), (''B-LOC'', 1), (''I-LOC'', 1)]"
  let ?C = "[[(w1, ''B-PER''), (w2, ''O''), (w3, ''O'')],
             [(w4, ''B-LOC''), (w5, ''I-LOC''), (w6, ''O'')]]"
  let ?stc = "[[(''B-PER'', 1::int)], [(''B-LOC'', 1), (''I-LOC'', 1)]]"
  let ?init = "initial_state ord ?C"
  let ?cc = "current_counts ?init"
  have stc: "map get_sentence_tag_counts ?C = ?stc"
    by (simp add: get_sentence_tag_counts_def)
  have len: "length ?C = 2" by simp
  have sel: "selected ?init = {0..<2}"
    by (simp add: initial_state_def Let_def numeral_2_eq_2)
  have s2: "{0..<2::nat} = {0, 1}" by auto
  have "state_ok (map get_sentence_tag_counts ?C) (length ?C) ?init"
    by (rule initial_state_ok)
  then have ok: "counts_ok ?stc {0..<2} ?cc"
    unfolding stc len sel state_ok_def by simp
  note dd = example_counts[OF ok]
  have nr: "\<forall>idx\<in>set (py_list (ord (Removal 0)) {0..<2}).
              \<not> should_remove_sentence ?tf idx (?stc ! idx) ?cc"
    by (simp add: py_list_set s2 dd)
  have rem: "removal_pass ?tf ?stc ord 0 ({0..<2}, ?cc, False) = ({0..<2}, ?cc, False)"
    using fold_remove_step_none[OF nr] by (simp add: removal_pass_def)
  have add: "addition_pass ?tf ?stc 2 ord 0 ({0..<2}, ?cc, False) = ({0..<2}, ?cc, False)"
    by (simp add: addition_pass_def py_list_empty)
  have score: "calculate_frequency_score ?tf ?cc = 0"
    by (simp add: calculate_frequency_score_def dd)
  have best0: "best_score ?init = None" by (simp add: initial_state_def Let_def)
  have it: "iteration ?tf ?stc 2 ord 0 ?init =
             (?init\<lparr>best_score := Some 0, best_selected := {0..<2}\<rparr>, False)"
    by (simp add: iteration_def Let_def sel rem add score best0)
  obtain k where k: "max_iterations = Suc k" using assms by (cases max_iterations) auto
  have fin: "final_state ?tf max_iterations ord ?C =
             ?init\<lparr>best_score := Some 0, best_selected := {0..<2}\<rparr>"
    unfolding final_state_def stc len k using it by simp
  have res: "balance_dataset ?tf max_iterations ord ?C = ?C"
    unfolding balance_dataset_def fin by (simp add: s2)
  have rec: "calculate_frequency_score ?tf
               (get_current_counts perm ?C {0..<2} ?stc) = 0"
  proof -
    have "\<And>tag. dd_get (get_current_counts perm ?C {0..<2} ?stc) tag =
                 (\<Sum>idx\<in>{0..<2}. count_of (?stc ! idx) tag)"
      by (intro get_current_counts_sum) (simp_all add: s2)
    then have "counts_ok ?stc {0..<2} (get_current_counts perm ?C {0..<2} ?stc)"
      by (simp add: counts_ok_def)
    note dd' = example_counts[OF this]
    show ?thesis by (simp add: calculate_frequency_score_def dd')
  qed
  show ?thesis unfolding stc fin using res rec by simp
qed

theorem end_to_end_example_witness:
  "(0::nat) < 50 \<and>
   balance_dataset [(''B-PER'', 1), (''B-LOC'', 1), (''I-LOC'', 1)] 50 ascending
           [[(''Ann'', ''B-PER''), (''sat'', ''O''), (''down'', ''O'')],
            [(''New'', ''B-LOC''), (''York'', ''I-LOC''), (''rocks'', ''O'')]] =
           [[(''Ann'', ''B-PER''), (''sat'', ''O''), (''down'', ''O'')],
            [(''New'', ''B-LOC''), (''York'', ''I-LOC''), (''rocks'', ''O'')]] \<and>
   best_score (final_state [(''B-PER'', 1), (''B-LOC'', 1), (''I-LOC'', 1)] 50 ascending
           [[(''Ann'', ''B-PER''), (''sat'', ''O''), (''down'', ''O'')],
            [(''New'', ''B-LOC''), (''York'', ''I-LOC''), (''rocks'', ''O'')]]) = Some 0"
proof -
  have pos: "(0::nat) < 50" by simp
  show ?thesis
    using pos end_to_end_example[OF pos, of ascending "''Ann''" "''sat''" "''down''"
        "''New''" "''York''" "''rocks''" "\<lambda>xs. xs"]
    by simp
qed

section \<open>Determinism and the order of evaluation\<close>

lemma final_best_selected_subset:
  "best_selected (final_state tf max_iterations ord sentences) \<subseteq> {0..<length sentences}"
proof (cases "0 < max_iterations")
  case True
  from final_recorded[OF True, of tf ord sentences]
  obtain k where k: "k < length (balance_states tf max_iterations ord sentences)"
    "best_selected (final_state tf max_iterations ord sentences) =
       selected (balance_states tf max_iterations ord sentences ! k)"
    by blast
  have "balance_states tf max_iterations ord sentences ! k \<in>
        set (balance_states tf max_iterations ord sentences)"
    using k(1) by simp
  then have "state_ok (map get_sentence_tag_counts sentences) (length sentences)
               (balance_states tf max_iterations ord sentences ! k)"
    by (rule balance_states_ok)
  then show ?thesis using k(2) by (simp add: state_ok_def)
next
  case False
  then show ?thesis by (simp add: final_state_def initial_state_def Let_def)
qed

text \<open>
  The initial count does not depend on the order in which \<open>get_current_counts\<close> walks the
  selection, and a round depends on the order only through the two lists it walks.
\<close>

lemma add_counts_None:
  "add_counts sc cc tag = None \<longleftrightarrow> cc tag = None \<and> tag \<notin> fst ` set sc"
  unfolding add_counts_def
  by (induction sc arbitrary: cc) (auto split: if_splits)

lemma fold_add_counts_None:
  "fold (\<lambda>idx counts. add_counts (stc ! idx) counts) xs cc tag = None \<longleftrightarrow>
     cc tag = None \<and> (\<forall>idx\<in>set xs. tag \<notin> fst ` set (stc ! idx))"
  by (induction xs arbitrary: cc) (auto simp: add_counts_None)

lemma counts_eqI:
  assumes "\<And>tag. (m1 tag = None \<longleftrightarrow> m2 tag = None)" "\<And>tag. dd_get m1 tag = dd_get m2 tag"
  shows "m1 = m2"
proof
  fix tag
  show "m1 tag = m2 tag"
    using assms(1)[of tag] assms(2)[of tag]
    by (cases "m1 tag"; cases "m2 tag") (simp_all add: dd_get_def)
qed

lemma get_current_counts_order:
  assumes "finite S" "\<forall>idx\<in>S. distinct (map fst (stc ! idx))"
  shows "get_current_counts perm1 sents S stc = get_current_counts perm2 sents S stc"
proof (rule counts_eqI)
  fix tag
  show "get_current_counts perm1 sents S stc tag = None \<longleftrightarrow>
        get_current_counts perm2 sents S stc tag = None"
    using assms(1) by (simp add: get_current_counts_def fold_add_counts_None py_list_set)
  show "dd_get (get_current_counts perm1 sents S stc) tag =
        dd_get (get_current_counts perm2 sents S stc) tag"
    by (simp only: get_current_counts_sum[OF assms])
qed

lemma initial_state_order:
  "initial_state ord1 sentences = initial_state ord2 sentences"
  unfolding initial_state_def Let_def
  using get_current_counts_order[of "{0..<length sentences}" "map get_sentence_tag_counts sentences"
          "ord1 Counts" sentences "ord2 Counts"]
  by (simp add: distinct_get_sentence_tag_counts)

lemma iteration_walked:
  assumes "walked tf stc n ord1 i st = walked tf stc n ord2 i st"
  shows "iteration tf stc n ord1 i st = iteration tf stc n ord2 i st"
proof -
  let ?s0 = "(selected st, current_counts st, False)"
  have r: "py_list (ord1 (Removal i)) (selected st) = py_list (ord2 (Removal i)) (selected st)"
    using assms by (simp add: walked_def Let_def split: prod.splits)
  have rp: "removal_pass tf stc ord1 i ?s0 = removal_pass tf stc ord2 i ?s0"
    by (simp add: removal_pass_def r)
  obtain sel cc imp where p: "removal_pass tf stc ord2 i ?s0 = (sel, cc, imp)"
    by (cases "removal_pass tf stc ord2 i ?s0")
  have a: "py_list (ord1 (Addition i)) ({0..<n} - sel) = py_list (ord2 (Addition i)) ({0..<n} - sel)"
    using assms rp p by (simp add: walked_def Let_def)
  have "addition_pass tf stc n ord1 i (sel, cc, imp) = addition_pass tf stc n ord2 i (sel, cc, imp)"
    by (simp add: addition_pass_def Let_def a)
  then show ?thesis by (simp add: iteration_def rp p)
qed

lemma balance_trace_walked:
  assumes "\<forall>j<length (balance_trace tf stc n ord1 i k st).
             walked tf stc n ord1 (i + j) ((st # balance_trace tf stc n ord1 i k st) ! j) =
             walked tf stc n ord2 (i + j) ((st # balance_trace tf stc n ord1 i k st) ! j)"
  shows "balance_trace tf stc n ord2 i k st = balance_trace tf stc n ord1 i k st"
  using assms
proof (induction k arbitrary: i st)
  case 0
  show ?case by simp
next
  case (Suc k)
  obtain st1 imp where it: "iteration tf stc n ord1 i st = (st1, imp)"
    by (cases "iteration tf stc n ord1 i st")
  have T: "balance_trace tf stc n ord1 i (Suc k) st =
           st1 # (if \<not> imp then [] else balance_trace tf stc n ord1 (Suc i) k st1)"
    using it by simp
  have "walked tf stc n ord1 i st = walked tf stc n ord2 i st"
    using Suc.prems T by (auto dest: spec[of _ 0])
  then have it2: "iteration tf stc n ord2 i st = (st1, imp)"
    using iteration_walked[of tf stc n ord1 i st ord2] it by simp
  show ?case
  proof (cases imp)
    case False
    then show ?thesis using it it2 by simp
  next
    case True
    have T': "balance_trace tf stc n ord1 i (Suc k) st =
              st1 # balance_trace tf stc n ord1 (Suc i) k st1"
      using T True by simp
    have "balance_trace tf stc n ord2 (Suc i) k st1 = balance_trace tf stc n ord1 (Suc i) k st1"
    proof (rule Suc.IH, intro allI impI)
      fix j assume j: "j < length (balance_trace tf stc n ord1 (Suc i) k st1)"
      then have "Suc j < length (balance_trace tf stc n ord1 i (Suc k) st)"
        using T' by simp
      from Suc.prems[rule_format, OF this]
      show "walked tf stc n ord1 (Suc i + j) ((st1 # balance_trace tf stc n ord1 (Suc i) k st1) ! j) =
            walked tf stc n ord2 (Suc i + j) ((st1 # balance_trace tf stc n ord1 (Suc i) k st1) ! j)"
        using T' by simp
    qed
    then show ?thesis using it it2 True by simp
  qed
qed

lemma balance_states_walked:
  assumes "\<forall>k\<in>{0..<length (balance_states tf max_iterations ord1 sentences) - 1}.
             walked tf (map get_sentence_tag_counts sentences) (length sentences) ord1 k
               (balance_states tf max_iterations ord1 sentences ! k) =
             walked tf (map get_sentence_tag_counts sentences) (length sentences) ord2 k
               (balance_states tf max_iterations ord1 sentences ! k)"
  shows "balance_states tf max_iterations ord2 sentences =
         balance_states tf max_iterations ord1 sentences"
proof -
  let ?stc = "map get_sentence_tag_counts sentences"
  let ?n = "length sentences"
  let ?init = "initial_state ord1 sentences"
  let ?T = "balance_trace tf ?stc ?n ord1 0 max_iterations ?init"
  have S: "balance_states tf max_iterations ord1 sentences = ?init # ?T"
    by (simp add: balance_states_def)
  have i2: "initial_state ord2 sentences = ?init" by (rule initial_state_order)
  have "balance_trace tf ?stc ?n ord2 0 max_iterations ?init = ?T"
  proof (rule balance_trace_walked, intro allI impI)
    fix j assume "j < length ?T"
    then have "j \<in> {0..<length (balance_states tf max_iterations ord1 sentences) - 1}"
      using S by simp
    from assms[rule_format, OF this]
    show "walked tf ?stc ?n ord1 (0 + j) ((?init # ?T) ! j) =
          walked tf ?stc ?n ord2 (0 + j) ((?init # ?T) ! j)"
      using S by simp
  qed
  then show ?thesis by (simp add: balance_states_def i2)
qed

lemma walked_round:
  assumes "Suc k < length (balance_states tf max_iterations ord sentences)"
    and "walked tf (map get_sentence_tag_counts sentences) (length sentences) ord k
           (balance_states tf max_iterations ord sentences ! k) = (xs, ys)"
    and "fold (remove_step tf (map get_sentence_tag_counts sentences)) xs
           (selected (balance_states tf max_iterations ord sentences ! k),
            current_counts (balance_states tf max_iterations ord sentences ! k), False) =
         (sel1, cc1, imp1)"
    and "fold (add_step tf (map get_sentence_tag_counts sentences)) ys (sel1, cc1, imp1) =
         (sel2, cc2, imp2)"
  shows "set xs = selected (balance_states tf max_iterations ord sentences ! k) \<and> distinct xs \<and>
         set ys = {0..<length sentences} - sel1 \<and> distinct ys \<and>
         selected (balance_states tf max_iterations ord sentences ! Suc k) = sel2 \<and>
         current_counts (balance_states tf max_iterations ord sentences ! Suc k) = cc2"
proof -
  let ?stc = "map get_sentence_tag_counts sentences"
  let ?n = "length sentences"
  let ?S = "balance_states tf max_iterations ord sentences"
  let ?init = "initial_state ord sentences"
  let ?T = "balance_trace tf ?stc ?n ord 0 max_iterations ?init"
  let ?st = "?S ! k"
  have S: "?S = ?init # ?T" by (simp add: balance_states_def)
  have k: "k < length ?T" using assms(1) S by simp
  have "?st \<in> set ?S" using assms(1) by simp
  then have ok: "state_ok ?stc ?n ?st" by (rule balance_states_ok)
  then have fin: "finite (selected ?st)"
    unfolding state_ok_def using finite_subset[of "selected ?st" "{0..<?n}"] by simp
  have xs: "xs = py_list (ord (Removal k)) (selected ?st)"
    using assms(2) by (simp add: walked_def Let_def split: prod.splits)
  have rp: "removal_pass tf ?stc ord k (selected ?st, current_counts ?st, False) = (sel1, cc1, imp1)"
    using assms(3) xs by (simp add: removal_pass_def)
  have ys: "ys = py_list (ord (Addition k)) ({0..<?n} - sel1)"
    using assms(2) rp by (simp add: walked_def Let_def)
  have ap: "addition_pass tf ?stc ?n ord k (sel1, cc1, imp1) = (sel2, cc2, imp2)"
    using assms(4) ys by (simp add: addition_pass_def Let_def)
  have "fst (iteration tf ?stc ?n ord (0 + k) ((?init # ?T) ! k)) = ?T ! k"
    using k by (rule balance_trace_step)
  then have nx: "fst (iteration tf ?stc ?n ord k ?st) = ?S ! Suc k" using S by simp
  obtain st' imp where it: "iteration tf ?stc ?n ord k ?st = (st', imp)"
    by (cases "iteration tf ?stc ?n ord k ?st")
  from iteration_selected[OF it] rp ap
  have "selected st' = sel2" "current_counts st' = cc2" by simp_all
  moreover have "st' = ?S ! Suc k" using nx it by simp
  ultimately have nxt: "selected (?S ! Suc k) = sel2" "current_counts (?S ! Suc k) = cc2"
    by simp_all
  have "set xs = selected ?st" using fin xs by (simp add: py_list_set)
  moreover have "distinct xs" "distinct ys" using xs ys by (simp_all add: py_list_distinct)
  moreover have "set ys = {0..<?n} - sel1" using ys by (simp add: py_list_set)
  ultimately show ?thesis using nxt by simp
qed

text \<open>
  Claim C6 (determinism), amended. In every round that is run, the removal pass evaluates
  the members of \<open>selected\<close> one after the other, each exactly once, in the order of
  \<open>list(selected)\<close>, and the addition pass then evaluates the members of \<open>available\<close>, each
  exactly once, in the order of \<open>list(available)\<close>; the state at the end of the round is
  what these two walks leave. The source does not sort the two lists: the order is the
  one in which the interpreter enumerates the set. The result depends on the corpus, the
  targets, \<open>max_iterations\<close> and these lists only (not on the order of the initial count):
  a second run on the same input in which the sets walked are enumerated as in the first
  returns the same selection, and \<open>write_conll\<close> writes the same text for both. The result
  always lists the retained sentences in ascending index order.
\<close>

theorem balance_deterministic:
  assumes "stc = map get_sentence_tag_counts sentences" and "n = length sentences"
    and "S = balance_states tf max_iterations ord1 sentences"
  shows
  "((\<forall>k\<in>{0..<length S - 1}. walked tf stc n ord2 k (S ! k) = walked tf stc n ord1 k (S ! k)) \<longrightarrow>
      balance_dataset tf max_iterations ord2 sentences =
        balance_dataset tf max_iterations ord1 sentences \<and>
      write_conll (balance_dataset tf max_iterations ord2 sentences) =
        write_conll (balance_dataset tf max_iterations ord1 sentences)) \<and>
   (\<forall>k\<in>{0..<length S - 1}.
      case walked tf stc n ord1 k (S ! k) of (removal, addition) \<Rightarrow>
      case fold (remove_step tf stc) removal (selected (S ! k), current_counts (S ! k), False) of
        (sel1, cc1, improved1) \<Rightarrow>
      case fold (add_step tf stc) addition (sel1, cc1, improved1) of
        (sel2, cc2, improved2) \<Rightarrow>
          set removal = selected (S ! k) \<and> distinct removal \<and>
          set addition = {0..<n} - sel1 \<and> distinct addition \<and>
          selected (S ! Suc k) = sel2 \<and> current_counts (S ! Suc k) = cc2) \<and>
   (\<exists>idxs. sorted idxs \<and> distinct idxs \<and> set idxs \<subseteq> {0..<length sentences} \<and>
      balance_dataset tf max_iterations ord1 sentences = map (\<lambda>idx. sentences ! idx) idxs)"
proof (intro conjI impI ballI)
  assume a: "\<forall>k\<in>{0..<length S - 1}. walked tf stc n ord2 k (S ! k) = walked tf stc n ord1 k (S ! k)"
  have "balance_states tf max_iterations ord2 sentences =
        balance_states tf max_iterations ord1 sentences"
  proof (rule balance_states_walked, intro ballI)
    fix k assume "k \<in> {0..<length (balance_states tf max_iterations ord1 sentences) - 1}"
    then have "k \<in> {0..<length S - 1}" by (simp add: assms(3))
    from a[rule_format, OF this]
    show "walked tf (map get_sentence_tag_counts sentences) (length sentences) ord1 k
               (balance_states tf max_iterations ord1 sentences ! k) =
             walked tf (map get_sentence_tag_counts sentences) (length sentences) ord2 k
               (balance_states tf max_iterations ord1 sentences ! k)"
      by (simp add: assms)
  qed
  then have "final_state tf max_iterations ord2 sentences =
             final_state tf max_iterations ord1 sentences"
    by (simp only: final_state_last)
  then show r: "balance_dataset tf max_iterations ord2 sentences =
        balance_dataset tf max_iterations ord1 sentences"
    by (simp add: balance_dataset_def)
  show "write_conll (balance_dataset tf max_iterations ord2 sentences) =
        write_conll (balance_dataset tf max_iterations ord1 sentences)"
    by (simp only: r)
next
  fix k assume k: "k \<in> {0..<length S - 1}"
  then have k': "Suc k < length (balance_states tf max_iterations ord1 sentences)"
    by (simp add: assms(3))
  obtain xs ys where w: "walked tf stc n ord1 k (S ! k) = (xs, ys)"
    by (cases "walked tf stc n ord1 k (S ! k)")
  obtain sel1 cc1 imp1 where
    r: "fold (remove_step tf stc) xs (selected (S ! k), current_counts (S ! k), False) =
        (sel1, cc1, imp1)"
    by (cases "fold (remove_step tf stc) xs (selected (S ! k), current_counts (S ! k), False)")
  obtain sel2 cc2 imp2 where
    ad: "fold (add_step tf stc) ys (sel1, cc1, imp1) = (sel2, cc2, imp2)"
    by (cases "fold (add_step tf stc) ys (sel1, cc1, imp1)")
  have "set xs = selected (S ! k) \<and> distinct xs \<and>
        set ys = {0..<n} - sel1 \<and> distinct ys \<and>
        selected (S ! Suc k) = sel2 \<and> current_counts (S ! Suc k) = cc2"
    unfolding assms
    by (rule walked_round[OF k']) (use w r ad in \<open>simp_all only: assms\<close>)
  then show "case walked tf stc n ord1 k (S ! k) of (removal, addition) \<Rightarrow>
      case fold (remove_step tf stc) removal (selected (S ! k), current_counts (S ! k), False) of
        (sel1, cc1, improved1) \<Rightarrow>
      case fold (add_step tf stc) addition (sel1, cc1, improved1) of
        (sel2, cc2, improved2) \<Rightarrow>
          set removal = selected (S ! k) \<and> distinct removal \<and>
          set addition = {0..<n} - sel1 \<and> distinct addition \<and>
          selected (S ! Suc k) = sel2 \<and> current_counts (S ! Suc k) = cc2"
    by (simp only: w r ad prod.case)
next
  let ?B = "best_selected (final_state tf max_iterations ord1 sentences)"
  have sub: "?B \<subseteq> {0..<length sentences}" by (rule final_best_selected_subset)
  then have fin: "finite ?B" by (rule finite_subset) simp
  show "\<exists>idxs. sorted idxs \<and> distinct idxs \<and> set idxs \<subseteq> {0..<length sentences} \<and>
      balance_dataset tf max_iterations ord1 sentences = map (\<lambda>idx. sentences ! idx) idxs"
    using sub fin
    by (intro exI[of _ "sorted_list_of_set ?B"]) (simp add: balance_dataset_def)
qed

theorem balance_deterministic_witness:
  "walked [(''A'', 1)]
     (map get_sentence_tag_counts [[(''x'', ''A'')], [(''y'', ''A'')], [(''z'', ''A'')]])
     (length [[(''x'', ''A'')], [(''y'', ''A'')], [(''z'', ''A'')]])
     (\<lambda>s xs. case s of Counts \<Rightarrow> rev xs | Removal _ \<Rightarrow> xs
              | Addition _ \<Rightarrow> if length xs = 3 then rev xs else xs) 0
     (balance_states [(''A'', 1)] 50 ascending
        [[(''x'', ''A'')], [(''y'', ''A'')], [(''z'', ''A'')]] ! 0) = ([0, 1, 2], [0, 1]) \<and>
   walked [(''A'', 1)]
     (map get_sentence_tag_counts [[(''x'', ''A'')], [(''y'', ''A'')], [(''z'', ''A'')]])
     (length [[(''x'', ''A'')], [(''y'', ''A'')], [(''z'', ''A'')]])
     (\<lambda>s xs. case s of Counts \<Rightarrow> rev xs | Removal _ \<Rightarrow> xs
              | Addition _ \<Rightarrow> if length xs = 3 then rev xs else xs) 1
     (balance_states [(''A'', 1)] 50 ascending
        [[(''x'', ''A'')], [(''y'', ''A'')], [(''z'', ''A'')]] ! 1) = ([2], [0, 1]) \<and>
   length (balance_states [(''A'', 1)] 50 ascending
             [[(''x'', ''A'')], [(''y'', ''A'')], [(''z'', ''A'')]]) = 3 \<and>
   py_list ((\<lambda>s xs. case s of Counts \<Rightarrow> rev xs | Removal _ \<Rightarrow> xs
                 | Addition _ \<Rightarrow> if length xs = 3 then rev xs else xs) Counts) {0..<3} = [2, 1, 0] \<and>
   balance_dataset [(''A'', 1)] 50
     (\<lambda>s xs. case s of Counts \<Rightarrow> rev xs | Removal _ \<Rightarrow> xs
              | Addition _ \<Rightarrow> if length xs = 3 then rev xs else xs)
     [[(''x'', ''A'')], [(''y'', ''A'')], [(''z'', ''A'')]] = [[(''z'', ''A'')]]"
proof -
  let ?tf = "[(''A'', 1::int)]"
  let ?c = "[[(''x'', ''A'')], [(''y'', ''A'')], [(''z'', ''A'')]]"
  let ?o = "\<lambda>s xs. case s of Counts \<Rightarrow> rev xs | Removal _ \<Rightarrow> xs
                 | Addition _ \<Rightarrow> if length xs = 3 then rev xs else (xs :: nat list)"
  have w0: "walked ?tf (map get_sentence_tag_counts ?c) (length ?c) ?o 0
              (balance_states ?tf 50 ascending ?c ! 0) = ([0, 1, 2], [0, 1])"
    by code_simp
  have w1: "walked ?tf (map get_sentence_tag_counts ?c) (length ?c) ?o 1
              (balance_states ?tf 50 ascending ?c ! 1) = ([2], [0, 1])"
    by code_simp
  have h: "\<forall>k\<in>{0..<length (balance_states ?tf 50 ascending ?c) - 1}.
      walked ?tf (map get_sentence_tag_counts ?c) (length ?c) ?o k
        (balance_states ?tf 50 ascending ?c ! k) =
      walked ?tf (map get_sentence_tag_counts ?c) (length ?c) ascending k
        (balance_states ?tf 50 ascending ?c ! k)"
    by code_simp
  have l: "length (balance_states ?tf 50 ascending ?c) = 3" by code_simp
  have p: "py_list (?o Counts) {0..<3} = [2, 1, 0]" by code_simp
  have v: "balance_dataset ?tf 50 ascending ?c = [[(''z'', ''A'')]]" by code_simp
  note t = balance_deterministic[where tf = ?tf and max_iterations = 50 and ?ord1.0 = ascending
             and ?ord2.0 = ?o and sentences = ?c, OF refl refl refl]
  have "balance_dataset ?tf 50 ?o ?c = balance_dataset ?tf 50 ascending ?c"
    using conjunct1[OF t] h by blast
  then have r: "balance_dataset ?tf 50 ?o ?c = [[(''z'', ''A'')]]" by (simp only: v)
  show ?thesis by (intro conjI w0 w1 l p r)
qed

text \<open>
  The claim as stated (candidates are evaluated in ascending index order) fails: the
  order of a pass can decide the result, and the set's order need not be ascending. In
  the corpus below the removal pass removes sentences 1 and 8, and only one of them can
  be added again. CPython's \<open>list(set(range(9)) - selected)\<close> is \<open>[8, 1]\<close> there (index 8
  falls into slot 0 of the fresh set's table of 8 slots), so sentence 8 returns and
  sentence 1 stays out; walking in ascending order returns sentence 1 instead. Every
  later round repeats the same removal and addition with the same score. The two results
  below come from the same corpus, targets and \<open>max_iterations\<close> and differ only in how
  \<open>available\<close> is enumerated: the result is determined once the enumeration is.
\<close>

theorem evaluation_order_counterexample:
  "py_list ((\<lambda>s xs. case s of Addition _ \<Rightarrow> rev xs | _ \<Rightarrow> xs) (Addition 0)) {1, 8} = [8, 1] \<and>
   balance_dataset [(''A'', 5), (''B'', 100)] 1
     (\<lambda>s xs. case s of Addition _ \<Rightarrow> rev xs | _ \<Rightarrow> xs)
     [[(''a'', ''A''), (''b'', ''A''), (''c'', ''A''), (''d'', ''A'')],
      [(''e'', ''A'')], [(''f'', ''B'')], [(''g'', ''B'')], [(''h'', ''B'')],
      [(''i'', ''B'')], [(''j'', ''B'')], [(''k'', ''B'')], [(''l'', ''A'')]] =
     [[(''a'', ''A''), (''b'', ''A''), (''c'', ''A''), (''d'', ''A'')],
      [(''f'', ''B'')], [(''g'', ''B'')], [(''h'', ''B'')],
      [(''i'', ''B'')], [(''j'', ''B'')], [(''k'', ''B'')], [(''l'', ''A'')]] \<and>
   balance_dataset [(''A'', 5), (''B'', 100)] 1 ascending
     [[(''a'', ''A''), (''b'', ''A''), (''c'', ''A''), (''d'', ''A'')],
      [(''e'', ''A'')], [(''f'', ''B'')], [(''g'', ''B'')], [(''h'', ''B'')],
      [(''i'', ''B'')], [(''j'', ''B'')], [(''k'', ''B'')], [(''l'', ''A'')]] =
     [[(''a'', ''A''), (''b'', ''A''), (''c'', ''A''), (''d'', ''A'')],
      [(''e'', ''A'')], [(''f'', ''B'')], [(''g'', ''B'')], [(''h'', ''B'')],
      [(''i'', ''B'')], [(''j'', ''B'')], [(''k'', ''B'')]]"
  by code_simp

section \<open>Reading a line\<close>

text \<open>
  Claim C9 (single-field data line). A line that is not empty after \<open>strip()\<close>, does not
  start with \<open>-DOCSTART-\<close> and has exactly one whitespace-delimited field is read without
  an error, and appends to the current sentence a pair whose token and label are both
  that field.
\<close>

theorem single_field_line:
  assumes "strip l \<noteq> []" "\<not> startswith (strip l) ''-DOCSTART-''"
    and "length (split (strip l)) = 1"
  shows "\<exists>word. split (strip l) = [word] \<and>
           read_line l (sentences, current_sentence) =
             Inr (sentences, current_sentence @ [(word, word)])"
proof -
  from assms(3) obtain word where w: "split (strip l) = [word]"
    by (cases "split (strip l)") auto
  have "read_line l (sentences, current_sentence) =
          Inr (sentences, current_sentence @ [(word, word)])"
    using assms(1,2) w by (simp add: read_line_def Let_def)
  then show ?thesis using w by simp
qed

theorem single_field_line_witness:
  "strip (''  hello '' @ [LF]) \<noteq> [] \<and>
   \<not> startswith (strip (''  hello '' @ [LF])) ''-DOCSTART-'' \<and>
   length (split (strip (''  hello '' @ [LF]))) = 1 \<and>
   read_line (''  hello '' @ [LF]) ([], [(''Ann'', ''B-PER'')]) =
     Inr ([], [(''Ann'', ''B-PER''), (''hello'', ''hello'')]) \<and>
   read_conll (''Ann B-PER'' @ [LF] @ ''  hello '' @ [LF]) =
     Inr [[(''Ann'', ''B-PER''), (''hello'', ''hello'')]]"
proof -
  have h1: "strip (''  hello '' @ [LF]) \<noteq> []" by code_simp
  have h2: "\<not> startswith (strip (''  hello '' @ [LF])) ''-DOCSTART-''" by code_simp
  have h3: "length (split (strip (''  hello '' @ [LF]))) = 1" by code_simp
  have s: "split (strip (''  hello '' @ [LF])) = [''hello'']" by code_simp
  have f: "read_conll (''Ann B-PER'' @ [LF] @ ''  hello '' @ [LF]) =
     Inr [[(''Ann'', ''B-PER''), (''hello'', ''hello'')]]" by code_simp
  show ?thesis
    using h1 h2 h3 s f single_field_line[OF h1 h2 h3, of "[]" "[(''Ann'', ''B-PER'')]"]
    by simp
qed

section \<open>Writing a selection and reading it back\<close>

text \<open>
  The lines of the text that \<open>write_conll\<close> writes are the header, an empty line and, for
  each sentence, one line per pair and an empty line. \<open>read_conll\<close> reads a line
  \<open>word -X- _ tag\<close> back as the pair \<open>(word, tag)\<close> when \<open>word\<close> and \<open>tag\<close> are single
  fields and \<open>word\<close> does not start with \<open>-DOCSTART-\<close>.
\<close>

lemma is_space_LF: "is_space LF" by (simp add: is_space_def)
lemma is_space_CR: "is_space CR" by (simp add: is_space_def)
lemma is_space_blank: "is_space CHR '' ''" by (simp add: is_space_def)

lemma universal_newlines_id: "CR \<notin> set s \<Longrightarrow> universal_newlines s = s"
  by (induction s rule: universal_newlines.induct) auto

lemma lines_from_line:
  "LF \<notin> set l \<Longrightarrow> lines_from acc (l @ LF # rest) = (acc @ l @ [LF]) # lines_from [] rest"
  by (induction l arbitrary: acc) auto

lemma strip_core:
  assumes "x \<noteq> []" "\<not> is_space (hd x)" "\<not> is_space (last x)" "\<forall>c\<in>set ws. is_space c"
  shows "strip (x @ ws) = x"
proof -
  have 1: "dropWhile is_space (x @ ws) = x @ ws" using assms(1,2) by (cases x) auto
  have "dropWhile is_space (rev ws @ rev x) = dropWhile is_space (rev x)"
    using assms(4) by (intro dropWhile_append2) simp
  also have "\<dots> = rev x"
    using assms(1,3) by (cases "rev x") (auto simp: last_rev hd_rev)
  finally show ?thesis by (simp add: strip_def 1)
qed

lemma split_from_word:
  "\<forall>c\<in>set w. \<not> is_space c \<Longrightarrow> split_from word (w @ rest) = split_from (word @ w) rest"
  by (induction w arbitrary: word) auto

lemma split_field: "field w \<Longrightarrow> split_from [] w = [w]"
  using split_from_word[of w "[]" "[]"] by (simp add: field_def)

lemma split_data_line:
  assumes "field w" "field t"
  shows "split (w @ '' -X- _ '' @ t) = [w, ''-X-'', ''_'', t]"
proof -
  have "split_from [] (w @ '' -X- _ '' @ t) = split_from w ('' -X- _ '' @ t)"
    using assms(1) split_from_word[of w "[]"] by (simp add: field_def)
  also have "\<dots> = w # split_from [] (''-X- _ '' @ t)"
    using assms(1) by (simp add: field_def is_space_def)
  also have "split_from [] (''-X- _ '' @ t) = [''-X-'', ''_'', t]"
    using split_field[OF assms(2)] by (simp add: is_space_def)
  finally show ?thesis by (simp add: split_def)
qed


lemma field_no_LF: "field w \<Longrightarrow> LF \<notin> set w"
  using is_space_LF by (auto simp: field_def)

lemma field_no_CR: "field w \<Longrightarrow> CR \<notin> set w"
  using is_space_CR by (auto simp: field_def)

lemma strip_data_line:
  assumes "field w" "field t"
  shows "strip (w @ '' -X- _ '' @ t @ [LF]) = w @ '' -X- _ '' @ t"
proof -
  let ?x = "w @ '' -X- _ '' @ t"
  have "strip (?x @ [LF]) = ?x"
  proof (rule strip_core)
    show "?x \<noteq> []" using assms(1) by (simp add: field_def)
    show "\<not> is_space (hd ?x)" using assms(1) by (cases w) (auto simp: field_def)
    have "last ?x = last t" using assms(2) by (simp add: field_def)
    then show "\<not> is_space (last ?x)" using assms(2) by (simp add: field_def)
    show "\<forall>c\<in>set [LF]. is_space c" by (simp add: is_space_LF)
  qed
  then show ?thesis by simp
qed

lemma startswith_append:
  assumes "\<not> startswith w p" "c \<notin> set p"
  shows "\<not> startswith (w @ c # r) p"
proof
  assume a: "startswith (w @ c # r) p"
  show False
  proof (cases "length p \<le> length w")
    case True
    then have "take (length p) (w @ c # r) = take (length p) w" by simp
    then show False using a assms(1) by (simp add: startswith_def)
  next
    case False
    then obtain m where m: "length p - length w = Suc m" by (cases "length p - length w") auto
    have "take (length p) (w @ c # r) = w @ c # take m r"
      using False m by simp
    then have "c \<in> set p" using a by (simp add: startswith_def) (metis in_set_conv_decomp)
    then show False using assms(2) by simp
  qed
qed

lemma startswith_data_line:
  assumes "\<not> startswith w ''-DOCSTART-''"
  shows "\<not> startswith (w @ '' -X- _ '' @ t) ''-DOCSTART-''"
proof -
  have "CHR '' '' \<notin> set ''-DOCSTART-''" by simp
  with assms have "\<not> startswith (w @ CHR '' '' # (''-X- _ '' @ t)) ''-DOCSTART-''"
    by (rule startswith_append)
  then show ?thesis by simp
qed

lemma read_data_line:
  assumes "field w" "field t" "\<not> startswith w ''-DOCSTART-''"
  shows "read_line (w @ '' -X- _ '' @ t @ [LF]) (acc, cur) = Inr (acc, cur @ [(w, t)])"
proof -
  let ?x = "w @ '' -X- _ '' @ t"
  have s: "strip (w @ '' -X- _ '' @ t @ [LF]) = ?x" by (rule strip_data_line[OF assms(1,2)])
  have ne: "?x \<noteq> []" by simp
  have nsw: "\<not> startswith ?x ''-DOCSTART-''" by (rule startswith_data_line[OF assms(3)])
  have sp: "split ?x = [w, ''-X-'', ''_'', t]" by (rule split_data_line[OF assms(1,2)])
  have "read_line (w @ '' -X- _ '' @ t @ [LF]) (acc, cur) =
        (if startswith ?x ''-DOCSTART-'' \<or> ?x = []
         then (if cur \<noteq> [] then Inr (acc @ [cur], []) else Inr (acc, cur))
         else (case split ?x of
                 [] \<Rightarrow> Inl IndexError
               | word # rest \<Rightarrow> Inr (acc, cur @ [(word, last (word # rest))])))"
    unfolding read_line_def Let_def s by simp
  also have "\<dots> = Inr (acc, cur @ [(w, t)])"
    unfolding sp using nsw ne by simp
  finally show ?thesis .
qed

lemma read_blank_line:
  "read_line [LF] (acc, cur) = Inr (if cur \<noteq> [] then (acc @ [cur], []) else (acc, cur))"
  by (simp add: read_line_def strip_def is_space_LF)

lemma read_header_line:
  "read_line (''-DOCSTART- -X- O O'' @ [LF]) (acc, []) = Inr (acc, [])"
proof -
  have "strip (''-DOCSTART- -X- O O'' @ [LF]) = ''-DOCSTART- -X- O O''"
    by (simp add: strip_def is_space_def)
  then show ?thesis by (simp add: read_line_def startswith_def)
qed

lemma read_lines_append:
  "read_lines (xs @ ys) st =
     (case read_lines xs st of Inl e \<Rightarrow> Inl e | Inr st' \<Rightarrow> read_lines ys st')"
  by (induction xs arbitrary: st) (auto split: sum.splits)

lemma read_sentence_lines:
  assumes "\<forall>(word, tag)\<in>set s. field word \<and> field tag \<and> \<not> startswith word ''-DOCSTART-''"
  shows "read_lines (sentence_lines s) (acc, cur) = Inr (acc, cur @ s)"
  using assms
proof (induction s arbitrary: cur)
  case Nil
  show ?case by (simp add: sentence_lines_def)
next
  case (Cons p s)
  obtain w t where p: "p = (w, t)" by (cases p)
  have f: "field w" "field t" "\<not> startswith w ''-DOCSTART-''"
    using Cons.prems by (simp_all add: p)
  have IH: "read_lines (sentence_lines s) (acc, cur @ [(w, t)]) = Inr (acc, (cur @ [(w, t)]) @ s)"
    using Cons.prems by (intro Cons.IH) simp
  have "sentence_lines (p # s) = (w @ '' -X- _ '' @ t @ [LF]) # sentence_lines s"
    by (simp add: sentence_lines_def p)
  then show ?case using IH read_data_line[OF f, of acc cur] by (simp add: p)
qed

lemma read_sentences:
  assumes "\<forall>s\<in>set ss. wf_sentence s"
  shows "read_lines (concat (map (\<lambda>s. sentence_lines s @ [[LF]]) ss)) (acc, []) =
         Inr (acc @ ss, [])"
  using assms
proof (induction ss arbitrary: acc)
  case Nil
  show ?case by simp
next
  case (Cons s ss)
  have wf: "s \<noteq> []"
    "\<forall>(word, tag)\<in>set s. field word \<and> field tag \<and> \<not> startswith word ''-DOCSTART-''"
    using Cons.prems by (simp_all add: wf_sentence_def)
  have 1: "read_lines (sentence_lines s) (acc, []) = Inr (acc, s)"
    using read_sentence_lines[OF wf(2), of acc "[]"] by simp
  have 2: "read_lines [[LF]] (acc, s) = Inr (acc @ [s], [])"
    using wf(1) by (simp add: read_blank_line)
  have 3: "read_lines (concat (map (\<lambda>s. sentence_lines s @ [[LF]]) ss)) (acc @ [s], []) =
           Inr ((acc @ [s]) @ ss, [])"
    using Cons.prems by (intro Cons.IH) simp
  have "concat (map (\<lambda>s. sentence_lines s @ [[LF]]) (s # ss)) =
        sentence_lines s @ [[LF]] @ concat (map (\<lambda>s. sentence_lines s @ [[LF]]) ss)"
    by simp
  then show ?case using 1 2 3 by (simp only: read_lines_append sum.case) simp
qed


lemma lines_write_sentence:
  assumes "\<forall>(word, tag)\<in>set s. field word \<and> field tag"
  shows "lines_from [] (write_sentence s @ rest) = sentence_lines s @ [LF] # lines_from [] rest"
  using assms
proof (induction s)
  case Nil
  show ?case by (simp add: write_sentence_def sentence_lines_def)
next
  case (Cons p s)
  obtain w t where p: "p = (w, t)" by (cases p)
  have f: "field w" "field t" using Cons.prems by (simp_all add: p)
  let ?l = "w @ '' -X- _ '' @ t"
  have noLF: "LF \<notin> set ?l" using field_no_LF[OF f(1)] field_no_LF[OF f(2)] by simp
  have "write_sentence (p # s) @ rest = ?l @ LF # (write_sentence s @ rest)"
    by (simp add: write_sentence_def p)
  then have "lines_from [] (write_sentence (p # s) @ rest) =
             ([] @ ?l @ [LF]) # lines_from [] (write_sentence s @ rest)"
    using lines_from_line[OF noLF, of "[]" "write_sentence s @ rest"] by simp
  also have "lines_from [] (write_sentence s @ rest) =
             sentence_lines s @ [LF] # lines_from [] rest"
    using Cons.prems by (intro Cons.IH) simp
  finally show ?case by (simp add: sentence_lines_def p)
qed

lemma lines_write_sentences:
  assumes "\<forall>s\<in>set ss. wf_sentence s"
  shows "lines_from [] (concat (map write_sentence ss)) =
         concat (map (\<lambda>s. sentence_lines s @ [[LF]]) ss)"
  using assms
proof (induction ss)
  case Nil
  show ?case by simp
next
  case (Cons s ss)
  have f: "\<forall>(word, tag)\<in>set s. field word \<and> field tag"
    using Cons.prems by (auto simp: wf_sentence_def)
  have "lines_from [] (write_sentence s @ concat (map write_sentence ss)) =
        sentence_lines s @ [LF] # lines_from [] (concat (map write_sentence ss))"
    by (rule lines_write_sentence[OF f])
  then show ?case using Cons.IH Cons.prems by simp
qed

lemma write_sentence_no_CR:
  assumes "\<forall>(word, tag)\<in>set s. field word \<and> field tag"
  shows "CR \<notin> set (write_sentence s)"
  using assms
proof (induction s)
  case Nil
  show ?case by (simp add: write_sentence_def)
next
  case (Cons p s)
  obtain w t where p: "p = (w, t)" by (cases p)
  have f: "field w" "field t" using Cons.prems by (simp_all add: p)
  have "CR \<notin> set (write_sentence s)" using Cons.prems by (intro Cons.IH) simp
  then show ?case
    using field_no_CR[OF f(1)] field_no_CR[OF f(2)] by (simp add: write_sentence_def p)
qed

lemma write_conll_no_CR:
  assumes "\<forall>s\<in>set ss. wf_sentence s"
  shows "CR \<notin> set (write_conll ss)"
proof -
  have "\<forall>s\<in>set ss. CR \<notin> set (write_sentence s)"
    using assms by (auto simp: wf_sentence_def intro!: write_sentence_no_CR)
  then show ?thesis by (simp add: write_conll_def)
qed

lemma file_lines_write_conll:
  assumes "\<forall>s\<in>set ss. wf_sentence s"
  shows "file_lines (write_conll ss) =
         (''-DOCSTART- -X- O O'' @ [LF]) # [LF] #
         concat (map (\<lambda>s. sentence_lines s @ [[LF]]) ss)"
proof -
  let ?h = "''-DOCSTART- -X- O O''"
  let ?body = "concat (map write_sentence ss)"
  have a: "file_lines (write_conll ss) = lines_from [] (write_conll ss)"
    by (simp add: file_lines_def universal_newlines_id[OF write_conll_no_CR[OF assms]])
  have b: "write_conll ss = ?h @ LF # (LF # ?body)" by (simp add: write_conll_def)
  have c: "lines_from [] (?h @ LF # (LF # ?body)) =
           ([] @ ?h @ [LF]) # lines_from [] (LF # ?body)"
    by (rule lines_from_line) simp
  have d: "lines_from [] (LF # ?body) = [LF] # lines_from [] ?body" by simp
  have e: "lines_from [] ?body = concat (map (\<lambda>s. sentence_lines s @ [[LF]]) ss)"
    by (rule lines_write_sentences[OF assms])
  show ?thesis unfolding a unfolding b unfolding c unfolding d unfolding e by simp
qed

text \<open>
  Claim C7 (format round-trip), amended: for every list of sentences, each a non-empty
  sequence of (token, label) pairs in which the tokens and the labels are not empty and
  hold no whitespace and no token begins with \<open>-DOCSTART-\<close>, reading with \<open>read_conll\<close>
  the text that \<open>write_conll\<close> writes raises no error and returns the same sentences:
  the same (token, label) pairs in the same order.
\<close>

theorem format_round_trip:
  assumes "\<forall>s\<in>set sentences. wf_sentence s"
  shows "read_conll (write_conll sentences) = Inr sentences"
proof -
  let ?rest = "concat (map (\<lambda>s. sentence_lines s @ [[LF]]) sentences)"
  have "read_lines (file_lines (write_conll sentences)) ([], []) =
        read_lines ([LF] # ?rest) ([], [])"
    by (simp only: file_lines_write_conll[OF assms] read_lines.simps read_header_line sum.case)
  also have "\<dots> = read_lines ?rest ([], [])"
    by (simp add: read_blank_line)
  also have "\<dots> = Inr ([] @ sentences, [])"
    by (rule read_sentences[OF assms])
  finally show ?thesis by (simp add: read_conll_def)
qed

theorem format_round_trip_witness:
  "wf_sentence [(''Ann'', ''B-PER''), (''sat'', ''O'')] \<and>
   wf_sentence [(''New'', ''B-LOC''), (''York'', ''I-LOC'')] \<and>
   read_conll (write_conll [[(''Ann'', ''B-PER''), (''sat'', ''O'')],
                            [(''New'', ''B-LOC''), (''York'', ''I-LOC'')]]) =
     Inr [[(''Ann'', ''B-PER''), (''sat'', ''O'')],
          [(''New'', ''B-LOC''), (''York'', ''I-LOC'')]]"
proof -
  have w1: "wf_sentence [(''Ann'', ''B-PER''), (''sat'', ''O'')]" by code_simp
  have w2: "wf_sentence [(''New'', ''B-LOC''), (''York'', ''I-LOC'')]" by code_simp
  have h: "\<forall>s\<in>set [[(''Ann'', ''B-PER''), (''sat'', ''O'')],
                     [(''New'', ''B-LOC''), (''York'', ''I-LOC'')]]. wf_sentence s"
    using w1 w2 by simp
  show ?thesis using w1 w2 format_round_trip[OF h] by simp
qed

text \<open>
  The conditions on the labels and on empty tokens are needed. A label with a blank is
  read back as its last piece; an empty token leaves the line \<open>-X- _ O\<close> after \<open>strip()\<close>,
  read as the token \<open>-X-\<close>; an empty label leaves \<open>Paris -X- _\<close>, read with the label \<open>_\<close>.
  In all three sentences the token holds no whitespace and does not begin with
  \<open>-DOCSTART-\<close>.
\<close>

theorem format_round_trip_counterexample:
  "read_conll (write_conll [[(''Paris'', ''B LOC'')]]) = Inr [[(''Paris'', ''LOC'')]] \<and>
   read_conll (write_conll [[([], ''O'')]]) = Inr [[(''-X-'', ''O'')]] \<and>
   read_conll (write_conll [[(''Paris'', [])]]) = Inr [[(''Paris'', ''_'')]]"
  by code_simp

end
